theory Spec2Isabelle
  imports
    Main
    "HOL-Library.Word"
    "HOL-Library.Multiset"
    "HOL-Library.Monad_Syntax"
    "HOL-Library.Signed_Division"
begin

section \<open>Machine model\<close>

text \<open>
  Keys are \<^verbatim>\<open>size_t\<close> values: unsigned 64-bit words, compared unsigned.
  Indices, lengths, flags and heights are C \<^verbatim>\<open>int\<close>s (32 bits). They are modelled as
  mathematical integers; an arithmetic result that can leave the \<^verbatim>\<open>int\<close> range on a
  call with a non-negative length goes through \<open>c_int\<close>, which makes the signed overflow
  (undefined behaviour in C) the value \<open>None\<close>. The loop counters need no such check:
  each increment happens under a loop condition that bounds it by another \<^verbatim>\<open>int\<close>.
  An array is the list of its cells; a read or write outside the list is \<open>None\<close> as well.
\<close>

type_synonym size_t = "64 word"

definition INT_MAX :: int where
  "INT_MAX = 2147483647"

definition INT_MIN :: int where
  "INT_MIN = - 2147483648"

definition c_int :: "int \<Rightarrow> int option" where
  "c_int x = (if INT_MIN \<le> x \<and> x \<le> INT_MAX then Some x else None)"

definition rd :: "'a list \<Rightarrow> int \<Rightarrow> 'a option" where
  "rd a i = (if 0 \<le> i \<and> i < int (length a) then Some (a ! nat i) else None)"

definition wr :: "'a list \<Rightarrow> int \<Rightarrow> 'a \<Rightarrow> 'a list option" where
  "wr a i v = (if 0 \<le> i \<and> i < int (length a) then Some (a[nat i := v]) else None)"

section \<open>The sorted-array registry\<close>

text \<open>The array routines of \<^verbatim>\<open>sort_test.c\<close>.\<close>

subsection \<open>Quicksort with insertion-sort fallback\<close>

text \<open>\<^verbatim>\<open>swap(addrs, n, m)\<close>: two reads, then two writes.\<close>

definition swap :: "size_t list \<Rightarrow> int \<Rightarrow> int \<Rightarrow> size_t list option" where
  "swap addrs n m =
     do { tmp \<leftarrow> rd addrs n;
          x \<leftarrow> rd addrs m;
          a1 \<leftarrow> wr addrs n x;
          wr a1 m tmp }"

text \<open>The \<^verbatim>\<open>for (i = min; i < max; i++)\<close> loop of \<^verbatim>\<open>partition\<close>; the state is the
  array and \<^verbatim>\<open>mid\<close>.\<close>

function partition_loop ::
  "size_t list \<Rightarrow> size_t \<Rightarrow> int \<Rightarrow> int \<Rightarrow> int \<Rightarrow> (size_t list \<times> int) option" where
  "partition_loop addrs pivot_val mx i mid =
     (if i < mx then
        do { x \<leftarrow> rd addrs i;
             if x \<le> pivot_val then
               do { a1 \<leftarrow> swap addrs i mid;
                    partition_loop a1 pivot_val mx (i + 1) (mid + 1) }
             else partition_loop addrs pivot_val mx (i + 1) mid }
      else Some (addrs, mid))"
  by pat_completeness auto
termination
  by (relation "measure (\<lambda>(addrs, pivot_val, mx, i, mid). nat (mx - i))") auto

declare partition_loop.simps [simp del]

text \<open>\<^verbatim>\<open>partition\<close>: the pivot index is \<^verbatim>\<open>(min + max) / 2\<close>, computed in \<^verbatim>\<open>int\<close>.\<close>

definition partition :: "size_t list \<Rightarrow> int \<Rightarrow> int \<Rightarrow> (size_t list \<times> int) option" where
  "partition addrs mn mx =
     do { s \<leftarrow> c_int (mn + mx);
          let pivot = s sdiv 2;
          pivot_val \<leftarrow> rd addrs pivot;
          a1 \<leftarrow> swap addrs pivot mx;
          (a2, mid) \<leftarrow> partition_loop a1 pivot_val mx mn mn;
          a3 \<leftarrow> swap a2 mid mx;
          Some (a3, mid) }"

text \<open>The inner loop of \<^verbatim>\<open>insertion_sort\<close>:
  \<^verbatim>\<open>for (j = i; j > min && addrs[j - 1] > addrs[j]; j--)\<close>.\<close>

function insertion_inner :: "size_t list \<Rightarrow> int \<Rightarrow> int \<Rightarrow> size_t list option" where
  "insertion_inner addrs mn j =
     (if j > mn then
        do { x \<leftarrow> rd addrs (j - 1);
             y \<leftarrow> rd addrs j;
             if x > y then
               do { a1 \<leftarrow> swap addrs j (j - 1);
                    insertion_inner a1 mn (j - 1) }
             else Some addrs }
      else Some addrs)"
  by pat_completeness auto
termination
  by (relation "measure (\<lambda>(addrs, mn, j). nat (j - mn))") auto

declare insertion_inner.simps [simp del]

text \<open>The outer loop: \<^verbatim>\<open>for (i = min + 1; i <= max; i++)\<close>.\<close>

function insertion_outer :: "size_t list \<Rightarrow> int \<Rightarrow> int \<Rightarrow> int \<Rightarrow> size_t list option" where
  "insertion_outer addrs mn mx i =
     (if i \<le> mx then
        do { a1 \<leftarrow> insertion_inner addrs mn i;
             insertion_outer a1 mn mx (i + 1) }
      else Some addrs)"
  by pat_completeness auto
termination
  by (relation "measure (\<lambda>(addrs, mn, mx, i). nat (mx + 1 - i))") auto

declare insertion_outer.simps [simp del]

definition insertion_sort :: "size_t list \<Rightarrow> int \<Rightarrow> int \<Rightarrow> size_t list option" where
  "insertion_sort addrs mn mx =
     do { i \<leftarrow> c_int (mn + 1);
          insertion_outer addrs mn mx i }"

definition SORT_THRESHOLD :: int where
  "SORT_THRESHOLD = 16"

text \<open>The result index of the partition loop never leaves \<open>[mid, mid + (mx - i)]\<close>;
  \<^verbatim>\<open>quicksort\<close> terminates because of it.\<close>

lemma partition_loop_mid:
  "partition_loop addrs pivot_val mx i mid = Some (a, m) \<Longrightarrow> i \<le> mx \<Longrightarrow>
   mid \<le> m \<and> m - mid \<le> mx - i"
proof (induction addrs pivot_val mx i mid rule: partition_loop.induct)
  case (1 addrs pivot_val mx i mid)
  show ?case
  proof (cases "i < mx")
    case False
    with "1.prems" show ?thesis by (simp add: partition_loop.simps [of addrs])
  next
    case True
    from "1.prems"(1) True obtain x where x: "rd addrs i = Some x"
      by (subst (asm) partition_loop.simps) (auto split: bind_splits)
    show ?thesis
    proof (cases "x \<le> pivot_val")
      case le: True
      from "1.prems"(1) True x le obtain a1 where
        a1: "swap addrs i mid = Some a1" and
        r: "partition_loop a1 pivot_val mx (i + 1) (mid + 1) = Some (a, m)"
        by (subst (asm) partition_loop.simps) (auto split: bind_splits)
      from "1.IH"(1) [OF True x le a1 r] True show ?thesis by simp
    next
      case gt: False
      from "1.prems"(1) True x gt have
        r: "partition_loop addrs pivot_val mx (i + 1) mid = Some (a, m)"
        by (subst (asm) partition_loop.simps) (auto split: bind_splits)
      from "1.IH"(2) [OF True x gt r] True show ?thesis by simp
    qed
  qed
qed

lemma partition_mid:
  assumes "partition addrs mn mx = Some (a, m)" and "mn \<le> mx"
  shows "mn \<le> m \<and> m \<le> mx"
proof -
  from assms(1) obtain a1 pv a2 where
    "partition_loop a1 pv mx mn mn = Some (a2, m)"
    unfolding partition_def Let_def by (clarsimp simp: bind_eq_Some_conv)
  from partition_loop_mid [OF this assms(2)] show ?thesis by simp
qed

function quicksort :: "size_t list \<Rightarrow> int \<Rightarrow> int \<Rightarrow> size_t list option" where
  "quicksort addrs mn mx =
     (if mx - mn > SORT_THRESHOLD then
        do { (a1, mid) \<leftarrow> partition addrs mn mx;
             a2 \<leftarrow> quicksort a1 mn (mid - 1);
             quicksort a2 (mid + 1) mx }
      else insertion_sort addrs mn mx)"
  by pat_completeness auto
termination
proof (relation "measure (\<lambda>(addrs, mn, mx). nat (mx - mn))", goal_cases)
  case 1
  show ?case by simp
next
  case (2 addrs mn mx x a1 mid)
  then have "partition addrs mn mx = Some (a1, mid)" and "mn \<le> mx"
    by (simp_all add: SORT_THRESHOLD_def)
  from partition_mid [OF this] 2(1) show ?case
    by (simp add: SORT_THRESHOLD_def)
next
  case (3 addrs mn mx x a1 mid a2)
  then have "partition addrs mn mx = Some (a1, mid)" and "mn \<le> mx"
    by (simp_all add: SORT_THRESHOLD_def)
  from partition_mid [OF this] 3(1) show ?case
    by (simp add: SORT_THRESHOLD_def)
qed

declare quicksort.simps [simp del]

definition forkscan_util_sort :: "size_t list \<Rightarrow> int \<Rightarrow> size_t list option" where
  "forkscan_util_sort a len =
     do { mx \<leftarrow> c_int (len - 1);
          quicksort a 0 mx }"

text \<open>The same recursion with a record of the calls it makes: which routine handled
  which index range, in call order.\<close>

datatype sort_call = Partition_call int int | Insertion_call int int

function quicksort_trace ::
  "size_t list \<Rightarrow> int \<Rightarrow> int \<Rightarrow> (size_t list \<times> sort_call list) option" where
  "quicksort_trace addrs mn mx =
     (if mx - mn > SORT_THRESHOLD then
        do { (a1, mid) \<leftarrow> partition addrs mn mx;
             (a2, t1) \<leftarrow> quicksort_trace a1 mn (mid - 1);
             (a3, t2) \<leftarrow> quicksort_trace a2 (mid + 1) mx;
             Some (a3, Partition_call mn mx # t1 @ t2) }
      else
        do { a1 \<leftarrow> insertion_sort addrs mn mx;
             Some (a1, [Insertion_call mn mx]) })"
  by pat_completeness auto
termination
proof (relation "measure (\<lambda>(addrs, mn, mx). nat (mx - mn))", goal_cases)
  case 1
  show ?case by simp
next
  case (2 addrs mn mx x a1 mid)
  then have "partition addrs mn mx = Some (a1, mid)" and "mn \<le> mx"
    by (simp_all add: SORT_THRESHOLD_def)
  from partition_mid [OF this] 2(1) show ?case
    by (simp add: SORT_THRESHOLD_def)
next
  case (3 addrs mn mx x a1 mid y a2 t1)
  then have "partition addrs mn mx = Some (a1, mid)" and "mn \<le> mx"
    by (simp_all add: SORT_THRESHOLD_def)
  from partition_mid [OF this] 3(1) show ?case
    by (simp add: SORT_THRESHOLD_def)
qed

declare quicksort_trace.simps [simp del]

subsection \<open>Binary search with marking\<close>

text \<open>The \<^verbatim>\<open>while (low <= high)\<close> loop of \<^verbatim>\<open>binary_search_mark\<close>. The result is the
  returned index and the flags array.\<close>

function bsearch_loop ::
  "size_t list \<Rightarrow> size_t \<Rightarrow> int list \<Rightarrow> int \<Rightarrow> int \<Rightarrow> (int \<times> int list) option" where
  "bsearch_loop arr target flags low high =
     (if low \<le> high then
        (let mid = low + (high - low) sdiv 2 in
         do { x \<leftarrow> rd arr mid;
              if x = target then
                do { f \<leftarrow> rd flags mid;
                     flags1 \<leftarrow> (if f = 0 then wr flags mid 1 else Some flags);
                     Some (mid, flags1) }
              else if target < x then bsearch_loop arr target flags low (mid - 1)
              else bsearch_loop arr target flags (mid + 1) high })
      else Some (- 1, flags))"
  by pat_completeness auto
termination
  by (relation "measure (\<lambda>(arr, target, flags, low, high). nat (high + 1 - low))")
     (auto simp: signed_divide_int_def sgn_if)

declare bsearch_loop.simps [simp del]

definition binary_search_mark ::
  "size_t list \<Rightarrow> int \<Rightarrow> size_t \<Rightarrow> int list \<Rightarrow> (int \<times> int list) option" where
  "binary_search_mark arr n target flags =
     do { high \<leftarrow> c_int (n - 1);
          bsearch_loop arr target flags 0 high }"

subsection \<open>Compaction\<close>

text \<open>The loop of \<^verbatim>\<open>filter_marked_array\<close>; the state is both arrays and \<^verbatim>\<open>new_n\<close>.\<close>

function filter_loop ::
  "size_t list \<Rightarrow> int list \<Rightarrow> int \<Rightarrow> int \<Rightarrow> int \<Rightarrow> (size_t list \<times> int list \<times> int) option" where
  "filter_loop arr flags n i new_n =
     (if i < n then
        do { f \<leftarrow> rd flags i;
             if f = 0 then
               do { x \<leftarrow> rd arr i;
                    arr1 \<leftarrow> wr arr new_n x;
                    flags1 \<leftarrow> wr flags new_n 0;
                    filter_loop arr1 flags1 n (i + 1) (new_n + 1) }
             else filter_loop arr flags n (i + 1) new_n }
      else Some (arr, flags, new_n))"
  by pat_completeness auto
termination
  by (relation "measure (\<lambda>(arr, flags, n, i, new_n). nat (n - i))") auto

declare filter_loop.simps [simp del]

text \<open>\<^verbatim>\<open>filter_marked_array(arr, &n, flags)\<close> returns the arrays and the new \<^verbatim>\<open>*n\<close>.\<close>

definition filter_marked_array ::
  "size_t list \<Rightarrow> int \<Rightarrow> int list \<Rightarrow> (size_t list \<times> int list \<times> int) option" where
  "filter_marked_array arr n flags = filter_loop arr flags n 0 0"

section \<open>The ordered registry\<close>

text \<open>The tree of \<^verbatim>\<open>forkscan-changed/avl.c\<close> (\<^verbatim>\<open>sort_test.c\<close> holds a copy of the same
  functions, without the traversal).\<close>

text \<open>
  A node pointer is either \<^verbatim>\<open>NULL\<close> or owns its node: the tree owns every node
  exactly once, so a pointer is modelled by the subtree it points to. A node has the
  fields \<^verbatim>\<open>key\<close>, \<^verbatim>\<open>height\<close>, \<^verbatim>\<open>marked\<close>, \<^verbatim>\<open>left\<close>, \<^verbatim>\<open>right\<close>, in this order.
  Dereferencing \<^verbatim>\<open>NULL\<close> is \<open>None\<close>. Allocation is taken to succeed (the source
  leaves the process with \<^verbatim>\<open>exit(1)\<close> when it does not). The \<^verbatim>\<open>height\<close> field is a
  mathematical integer: a tree that fits in memory is far too low for it to overflow.
\<close>

datatype avl_node =
    Null
  | Node (key: size_t) (height_field: int) (marked: int) (left: avl_node) (right: avl_node)

record avl_tree =
  root :: avl_node

fun height :: "avl_node \<Rightarrow> int" where
  "height Null = 0"
| "height (Node k h m l r) = h"

definition max_int :: "int \<Rightarrow> int \<Rightarrow> int" where
  "max_int a b = (if a > b then a else b)"

definition new_node :: "size_t \<Rightarrow> avl_node" where
  "new_node k = Node k 1 0 Null Null"

fun right_rotate :: "avl_node \<Rightarrow> avl_node option" where
  "right_rotate (Node yk yh ym (Node xk xh xm xl T2) yr) =
     (let y1 = Node yk (max_int (height T2) (height yr) + 1) ym T2 yr
      in Some (Node xk (max_int (height xl) (height y1) + 1) xm xl y1))"
| "right_rotate _ = None"

fun left_rotate :: "avl_node \<Rightarrow> avl_node option" where
  "left_rotate (Node xk xh xm xl (Node yk yh ym T2 yr)) =
     (let x1 = Node xk (max_int (height xl) (height T2) + 1) xm xl T2
      in Some (Node yk (max_int (height x1) (height yr) + 1) ym x1 yr))"
| "left_rotate _ = None"

fun get_balance :: "avl_node \<Rightarrow> int" where
  "get_balance Null = 0"
| "get_balance (Node k h m l r) = height l - height r"

text \<open>\<^verbatim>\<open>node->key\<close> through a pointer that may be \<^verbatim>\<open>NULL\<close>.\<close>

fun key_of :: "avl_node \<Rightarrow> size_t option" where
  "key_of Null = None"
| "key_of (Node k h m l r) = Some k"

text \<open>C's \<^verbatim>\<open>b && e\<close>: \<open>e\<close> is evaluated only when \<open>b\<close> holds.\<close>

definition and_then :: "bool \<Rightarrow> bool option \<Rightarrow> bool option" where
  "and_then b e = (if b then e else Some False)"

text \<open>The part of \<^verbatim>\<open>insert_node\<close> after the recursive call (avl.c lines 78 to 96):
  the height of \<^verbatim>\<open>node\<close> is recomputed, then the four rotation cases are tried in the
  order of the source.\<close>

fun insert_rebalance :: "avl_node \<Rightarrow> size_t \<Rightarrow> avl_node option" where
  "insert_rebalance Null k = None"
| "insert_rebalance (Node nk nh nm l r) k =
     (let h1 = 1 + max_int (height l) (height r);
          node = Node nk h1 nm l r;
          balance = get_balance node
      in do {
        c1 \<leftarrow> and_then (balance > 1) (do { lk \<leftarrow> key_of l; Some (k < lk) });
        if c1 then right_rotate node
        else do {
          c2 \<leftarrow> and_then (balance < - 1) (do { rk \<leftarrow> key_of r; Some (k > rk) });
          if c2 then left_rotate node
          else do {
            c3 \<leftarrow> and_then (balance > 1) (do { lk \<leftarrow> key_of l; Some (k > lk) });
            if c3 then do { l1 \<leftarrow> left_rotate l; right_rotate (Node nk h1 nm l1 r) }
            else do {
              c4 \<leftarrow> and_then (balance < - 1) (do { rk \<leftarrow> key_of r; Some (k < rk) });
              if c4 then do { r1 \<leftarrow> right_rotate r; left_rotate (Node nk h1 nm l r1) }
              else Some node } } } })"

text \<open>\<^verbatim>\<open>insert_node\<close> returns the new subtree and the value it stores in
  \<^verbatim>\<open>*inserted\<close> (every path stores one).\<close>

fun insert_node :: "avl_node \<Rightarrow> size_t \<Rightarrow> (avl_node \<times> int) option" where
  "insert_node Null k = Some (new_node k, 1)"
| "insert_node (Node nk nh nm l r) k =
     (if k < nk then
        do { (l1, inserted) \<leftarrow> insert_node l k;
             n1 \<leftarrow> insert_rebalance (Node nk nh nm l1 r) k;
             Some (n1, inserted) }
      else if k > nk then
        do { (r1, inserted) \<leftarrow> insert_node r k;
             n1 \<leftarrow> insert_rebalance (Node nk nh nm l r1) k;
             Some (n1, inserted) }
      else Some (Node nk nh nm l r, 0))"

fun contains_node :: "avl_node \<Rightarrow> size_t \<Rightarrow> int" where
  "contains_node Null k = 0"
| "contains_node (Node nk nh nm l r) k =
     (if k = nk then 1
      else if k < nk then contains_node l k
      else contains_node r k)"

text \<open>\<^verbatim>\<open>mark_node\<close> returns the subtree (a flag may have been set in it), its return
  value, and the content of \<^verbatim>\<open>*found\<close>.\<close>

fun mark_node :: "avl_node \<Rightarrow> size_t \<Rightarrow> int \<Rightarrow> avl_node \<times> int \<times> int" where
  "mark_node Null k found = (Null, 0, found)"
| "mark_node (Node nk nh nm l r) k found =
     (if k = nk then (Node nk nh (if nm = 0 then 1 else nm) l r, 1, 1)
      else if k < nk then
        (case mark_node l k found of (l1, ret, found1) \<Rightarrow> (Node nk nh nm l1 r, ret, found1))
      else
        (case mark_node r k found of (r1, ret, found1) \<Rightarrow> (Node nk nh nm l r1, ret, found1)))"

text \<open>The visitor \<^verbatim>\<open>f(node, data)\<close> acts on the state behind \<^verbatim>\<open>data\<close>.\<close>

fun inorder_traverse :: "avl_node \<Rightarrow> (avl_node \<Rightarrow> 'd \<Rightarrow> 'd) \<Rightarrow> 'd \<Rightarrow> 'd" where
  "inorder_traverse Null f d = d"
| "inorder_traverse (Node nk nh nm l r) f d =
     inorder_traverse r f (f (Node nk nh nm l r) (inorder_traverse l f d))"

definition avl_create :: avl_tree where
  "avl_create = \<lparr>root = Null\<rparr>"

definition avl_insert :: "avl_tree \<Rightarrow> size_t \<Rightarrow> (avl_tree \<times> int) option" where
  "avl_insert tree k =
     do { (r, inserted) \<leftarrow> insert_node (root tree) k;
          Some (tree\<lparr>root := r\<rparr>, inserted) }"

definition avl_contains :: "avl_tree \<Rightarrow> size_t \<Rightarrow> int" where
  "avl_contains tree k = contains_node (root tree) k"

definition avl_mark :: "avl_tree \<Rightarrow> size_t \<Rightarrow> avl_tree \<times> int" where
  "avl_mark tree k =
     (case mark_node (root tree) k 0 of (r, ret, found) \<Rightarrow> (tree\<lparr>root := r\<rparr>, found))"

function build_loop :: "avl_tree \<Rightarrow> size_t list \<Rightarrow> int \<Rightarrow> int \<Rightarrow> avl_tree option" where
  "build_loop tree keys n i =
     (if i < n then
        do { k \<leftarrow> rd keys i;
             (tree1, inserted) \<leftarrow> avl_insert tree k;
             build_loop tree1 keys n (i + 1) }
      else Some tree)"
  by pat_completeness auto
termination
proof (relation "measure (\<lambda>(tree, keys, n, i). nat (n - i))", goal_cases)
  case 1
  show ?case by simp
next
  case (2 tree keys n i k x tree1 inserted)
  then show ?case by simp
qed

declare build_loop.simps [simp del]

definition avl_build_from_array :: "size_t list \<Rightarrow> int \<Rightarrow> avl_tree option" where
  "avl_build_from_array keys n = build_loop avl_create keys n 0"

definition avl_inorder :: "avl_tree \<Rightarrow> (avl_node \<Rightarrow> 'd \<Rightarrow> 'd) \<Rightarrow> 'd \<Rightarrow> 'd" where
  "avl_inorder tree f d = inorder_traverse (root tree) f d"

text \<open>A finite sequence of \<^verbatim>\<open>avl_insert\<close> calls on one tree, and of \<^verbatim>\<open>avl_mark\<close>
  calls with one key; the return values are collected in call order.\<close>

fun avl_inserts :: "avl_tree \<Rightarrow> size_t list \<Rightarrow> (avl_tree \<times> int list) option" where
  "avl_inserts tree [] = Some (tree, [])"
| "avl_inserts tree (k # ks) =
     do { (tree1, r) \<leftarrow> avl_insert tree k;
          (tree2, rs) \<leftarrow> avl_inserts tree1 ks;
          Some (tree2, r # rs) }"

fun avl_marks :: "avl_tree \<Rightarrow> size_t \<Rightarrow> nat \<Rightarrow> avl_tree \<times> int list" where
  "avl_marks tree k 0 = (tree, [])"
| "avl_marks tree k (Suc n) =
     (case avl_mark tree k of (tree1, r) \<Rightarrow>
        (case avl_marks tree1 k n of (tree2, rs) \<Rightarrow> (tree2, r # rs)))"

text \<open>A finite sequence of calls of the registry's two mutating operations.\<close>

datatype registry_call = Insert_key size_t | Mark_key size_t

fun registry_run :: "avl_tree \<Rightarrow> registry_call list \<Rightarrow> avl_tree option" where
  "registry_run tree [] = Some tree"
| "registry_run tree (Insert_key k # cs) =
     do { (tree1, r) \<leftarrow> avl_insert tree k; registry_run tree1 cs }"
| "registry_run tree (Mark_key k # cs) =
     (case avl_mark tree k of (tree1, r) \<Rightarrow> registry_run tree1 cs)"

subsection \<open>Specification vocabulary\<close>

text \<open>Observations on a tree: the keys and the nodes in in-order, the height of a
  subtree (the number of nodes on its longest path), and the balance invariant of the
  registry, which speaks of both the subtree heights and the stored \<^verbatim>\<open>height\<close> fields.\<close>

fun keys_inorder :: "avl_node \<Rightarrow> size_t list" where
  "keys_inorder Null = []"
| "keys_inorder (Node k h m l r) = keys_inorder l @ [k] @ keys_inorder r"

fun tree_height :: "avl_node \<Rightarrow> int" where
  "tree_height Null = 0"
| "tree_height (Node k h m l r) = 1 + max (tree_height l) (tree_height r)"

fun avl_inv :: "avl_node \<Rightarrow> bool" where
  "avl_inv Null = True"
| "avl_inv (Node k h m l r) =
     (\<bar>tree_height l - tree_height r\<bar> \<le> 1 \<and> h = 1 + max (height l) (height r) \<and>
      avl_inv l \<and> avl_inv r)"

text \<open>The same invariant read off the stored heights alone.\<close>

fun avl_s :: "avl_node \<Rightarrow> bool" where
  "avl_s Null = True"
| "avl_s (Node k h m l r) =
     (h = 1 + max (height l) (height r) \<and> \<bar>height l - height r\<bar> \<le> 1 \<and> avl_s l \<and> avl_s r)"

text \<open>A subtree that has just grown leans to the side the key went to.\<close>

definition leans :: "avl_node \<Rightarrow> size_t \<Rightarrow> bool" where
  "leans t k = (case t of Null \<Rightarrow> False | Node nk nh nm l r \<Rightarrow>
      (k < nk \<and> height l = height r + 1) \<or> (nk < k \<and> height r = height l + 1))"

text \<open>What \<^verbatim>\<open>insert_node\<close> guarantees on a valid subtree.\<close>

definition insert_post :: "avl_node \<Rightarrow> size_t \<Rightarrow> avl_node \<Rightarrow> int \<Rightarrow> bool" where
  "insert_post t k t1 ins \<longleftrightarrow>
     avl_s t1 \<and>
     (height t1 = height t \<or> height t1 = height t + 1) \<and>
     (height t1 = height t + 1 \<and> t \<noteq> Null \<longrightarrow> leans t1 k) \<and>
     (ins = 0 \<or> ins = 1) \<and>
     (ins = 0 \<longrightarrow> t1 = t) \<and>
     (ins = 0 \<longleftrightarrow> k \<in> set (keys_inorder t)) \<and>
     set (keys_inorder t1) = insert k (set (keys_inorder t)) \<and>
     length (keys_inorder t1) = length (keys_inorder t) + nat ins \<and>
     sorted_wrt (<) (keys_inorder t1)"

fun nodes_inorder :: "avl_node \<Rightarrow> avl_node list" where
  "nodes_inorder Null = []"
| "nodes_inorder (Node k h m l r) = nodes_inorder l @ [Node k h m l r] @ nodes_inorder r"

text \<open>Every \<^verbatim>\<open>marked\<close> field is 0 or 1 (avl.h: 0 = unmarked, 1 = marked).\<close>

fun flags_ok :: "avl_node \<Rightarrow> bool" where
  "flags_ok Null = True"
| "flags_ok (Node k h m l r) = ((m = 0 \<or> m = 1) \<and> flags_ok l \<and> flags_ok r)"

text \<open>The tree with the flag of key \<open>k\<close> at 1 and everything else as it is.\<close>

fun set_marked :: "size_t \<Rightarrow> avl_node \<Rightarrow> avl_node" where
  "set_marked k Null = Null"
| "set_marked k (Node nk nh nm l r) =
     Node nk nh (if nk = k then 1 else nm) (set_marked k l) (set_marked k r)"

text \<open>Specification vocabulary for the sort: \<open>b\<close> is \<open>a\<close> with the cells of the index
  range \<open>[lo, hi]\<close> permuted and every other cell untouched; the cells of \<open>[lo, hi]\<close> are
  in non-decreasing order.\<close>

definition perm_in :: "size_t list \<Rightarrow> size_t list \<Rightarrow> int \<Rightarrow> int \<Rightarrow> bool" where
  "perm_in a b lo hi \<longleftrightarrow>
     length b = length a \<and> mset b = mset a \<and>
     (\<forall>i. 0 \<le> i \<and> i < int (length a) \<and> (i < lo \<or> hi < i) \<longrightarrow> b ! nat i = a ! nat i)"

definition sorted_in :: "size_t list \<Rightarrow> int \<Rightarrow> int \<Rightarrow> bool" where
  "sorted_in a lo hi \<longleftrightarrow> (\<forall>i j. lo \<le> i \<and> i \<le> j \<and> j \<le> hi \<longrightarrow> a ! nat i \<le> a ! nat j)"

text \<open>An array of \<open>2^31 - 1\<close> pairwise distinct keys: cell \<open>i\<close> holds \<open>i\<close>, except that
  cells 1 and \<open>2^30 - 1\<close> (the first pivot index) are exchanged.\<close>

definition overflow_keys :: "size_t list" where
  "overflow_keys =
     map (\<lambda>i. of_nat (if i = 1 then 1073741823 else if i = 1073741823 then 1 else i))
       [0..<2147483647]"

text \<open>The number of cells of the range a call was made on, and the routine that
  handled it.\<close>

fun range_size :: "sort_call \<Rightarrow> int" where
  "range_size (Partition_call lo hi) = hi - lo + 1"
| "range_size (Insertion_call lo hi) = hi - lo + 1"

fun by_partition :: "sort_call \<Rightarrow> bool" where
  "by_partition (Partition_call lo hi) = True"
| "by_partition (Insertion_call lo hi) = False"

section \<open>The concurrent workload generator\<close>

text \<open>
  \<^verbatim>\<open>remove_node\<close> of \<^verbatim>\<open>forkscan_test/main.c\<close>, run by two threads on one key. A call
  touches shared state in two places only, the atomic exchange on \<^verbatim>\<open>array[key]\<close> (line 71)
  and the atomic exchange on \<^verbatim>\<open>oldval->collected\<close> (line 78). Read-modify-write operations
  on one atomic object are totally ordered, and each reads the value written last before
  it, whatever the memory order; so the executions of two concurrent calls are the
  interleavings of these steps. A node is named by its address.

  Where a thread stands in \<^verbatim>\<open>remove_node\<close>: before the exchange on the slot, before the
  exchange on the flag of \<^verbatim>\<open>oldval\<close>, before \<^verbatim>\<open>forkscan_retire(oldval)\<close> (line 81), or
  returned with a value.
\<close>

datatype remove_pc =
    At_slot_exchange
  | At_flag_exchange nat
  | At_retire nat
  | Returned bool

text \<open>The locals of a call: its position, \<^verbatim>\<open>wasCollected\<close> once line 78 has run, and the
  \<^verbatim>\<open>forkscan_retire\<close> calls it has made.\<close>

record remover =
  pc :: remove_pc
  wasCollected :: "int option"
  hand_offs :: "nat list"

text \<open>The shared state: \<^verbatim>\<open>array[key]\<close> and the \<^verbatim>\<open>collected\<close> flag of every node.\<close>

record slot_table =
  slot :: "nat option"
  collected :: "nat \<Rightarrow> int"

text \<open>One step of a thread: an atomic exchange with the test on its result (lines 71 to
  74, lines 78 and 79), or the hand-off and \<^verbatim>\<open>return true\<close> (lines 81 and 86).\<close>

definition remove_node_step :: "slot_table \<Rightarrow> remover \<Rightarrow> slot_table \<times> remover" where
  "remove_node_step s t =
     (case pc t of
        At_slot_exchange \<Rightarrow>
          (case slot s of
             None \<Rightarrow> (s\<lparr>slot := None\<rparr>, t\<lparr>pc := Returned False\<rparr>)
           | Some oldval \<Rightarrow> (s\<lparr>slot := None\<rparr>, t\<lparr>pc := At_flag_exchange oldval\<rparr>))
      | At_flag_exchange oldval \<Rightarrow>
          (let was = collected s oldval
           in (s\<lparr>collected := (collected s)(oldval := 1)\<rparr>,
               t\<lparr>pc := (if was = 0 then At_retire oldval else Returned True),
                 wasCollected := Some was\<rparr>))
      | At_retire oldval \<Rightarrow> (s, t\<lparr>pc := Returned True, hand_offs := hand_offs t @ [oldval]\<rparr>)
      | Returned b \<Rightarrow> (s, t))"

text \<open>A thread entering \<^verbatim>\<open>remove_node\<close>, and the table after \<^verbatim>\<open>add(key)\<close> has stored node
  \<open>p\<close> (\<^verbatim>\<open>add\<close> initialises the flag to 0).\<close>

definition remove_node_call :: remover where
  "remove_node_call = \<lparr>pc = At_slot_exchange, wasCollected = None, hand_offs = []\<rparr>"

definition added :: "nat \<Rightarrow> slot_table" where
  "added p = \<lparr>slot = Some p, collected = (\<lambda>q. 0)\<rparr>"

text \<open>Two calls under a schedule: at each entry the second thread steps if it is
  \<open>True\<close>, the first if it is \<open>False\<close>. A thread that has returned stays where it is.\<close>

fun race ::
  "bool list \<Rightarrow> slot_table \<times> remover \<times> remover \<Rightarrow> slot_table \<times> remover \<times> remover" where
  "race [] c = c"
| "race (second # sched) (s, t0, t1) =
     (if second
      then (case remove_node_step s t1 of (s1, t) \<Rightarrow> race sched (s1, t0, t))
      else (case remove_node_step s t0 of (s1, t) \<Rightarrow> race sched (s1, t, t1)))"

text \<open>The states of the thread that took the node out of the slot, of the other
  thread, and of the two together; the steps a thread has left at most.\<close>

definition winner_at :: "nat \<Rightarrow> slot_table \<Rightarrow> remover \<Rightarrow> bool" where
  "winner_at p s t \<longleftrightarrow>
     (pc t = At_flag_exchange p \<and> collected s p = 0 \<and> hand_offs t = [] \<and> wasCollected t = None) \<or>
     (pc t = At_retire p \<and> hand_offs t = [] \<and> wasCollected t = Some 0) \<or>
     (pc t = Returned True \<and> hand_offs t = [p] \<and> wasCollected t = Some 0)"

definition loser_at :: "remover \<Rightarrow> bool" where
  "loser_at t \<longleftrightarrow>
     (pc t = At_slot_exchange \<or> pc t = Returned False) \<and> wasCollected t = None \<and> hand_offs t = []"

definition race_inv :: "nat \<Rightarrow> slot_table \<times> remover \<times> remover \<Rightarrow> bool" where
  "race_inv p c = (case c of (s, t0, t1) \<Rightarrow>
     (s = added p \<and> t0 = remove_node_call \<and> t1 = remove_node_call) \<or>
     (slot s = None \<and> winner_at p s t0 \<and> loser_at t1) \<or>
     (slot s = None \<and> winner_at p s t1 \<and> loser_at t0))"

definition steps_left :: "remove_pc \<Rightarrow> nat" where
  "steps_left c = (case c of At_slot_exchange \<Rightarrow> 3 | At_flag_exchange p \<Rightarrow> 2
     | At_retire p \<Rightarrow> 1 | Returned b \<Rightarrow> 0)"

section \<open>Properties of the sorted-array registry\<close>

subsection \<open>Array cells\<close>

lemma rd_Some [simp]: "0 \<le> i \<Longrightarrow> i < int (length a) \<Longrightarrow> rd a i = Some (a ! nat i)"
  by (simp add: rd_def)

lemma wr_Some [simp]: "0 \<le> i \<Longrightarrow> i < int (length a) \<Longrightarrow> wr a i v = Some (a[nat i := v])"
  by (simp add: wr_def)

subsection \<open>Compaction\<close>

lemma filter_loop_inv:
  assumes "0 \<le> new_n" "new_n \<le> i" "n \<le> int (length arr)" "n \<le> int (length flags)"
  shows "\<exists>arr' flags'.
      filter_loop arr flags n i new_n =
        Some (arr', flags', new_n + int (length (filter (\<lambda>k. flags ! k = 0) [nat i..<nat n]))) \<and>
      length arr' = length arr \<and> length flags' = length flags \<and>
      (\<forall>j < nat new_n. arr' ! j = arr ! j \<and> flags' ! j = flags ! j) \<and>
      (\<forall>j < length (filter (\<lambda>k. flags ! k = 0) [nat i..<nat n]).
          arr' ! (nat new_n + j) = arr ! (filter (\<lambda>k. flags ! k = 0) [nat i..<nat n] ! j) \<and>
          flags' ! (nat new_n + j) = 0)"
  using assms
proof (induction arr flags n i new_n rule: filter_loop.induct)
  case (1 arr flags n i new_n)
  show ?case
  proof (cases "i < n")
    case False
    then show ?thesis by (subst filter_loop.simps) simp
  next
    case True
    then have upt: "[nat i..<nat n] = nat i # [nat (i + 1)..<nat n]"
      using "1.prems" by (simp add: upt_conv_Cons nat_add_distrib)
    have rdf: "rd flags i = Some (flags ! nat i)" using True "1.prems" by simp
    show ?thesis
    proof (cases "flags ! nat i = 0")
      case False
      from 1(2)[OF True rdf False] 1(3-) True
      show ?thesis
        apply (subst filter_loop.simps)
        apply (simp add: upt False)
        done
    next
      case f0: True
      let ?arr1 = "arr[nat new_n := arr ! nat i]"
      let ?flags1 = "flags[nat new_n := 0]"
      let ?S = "filter (\<lambda>k. flags ! k = 0) [nat (i + 1)..<nat n]"
      have S1: "filter (\<lambda>k. ?flags1 ! k = 0) [nat (i + 1)..<nat n] = ?S"
        using 1(3-) by (intro filter_cong) auto
      have rda: "rd arr i = Some (arr ! nat i)" using True "1.prems" by simp
      have w1: "wr arr new_n (arr ! nat i) = Some ?arr1" using True "1.prems" by simp
      have w2: "wr flags new_n 0 = Some ?flags1" using True "1.prems" by simp
      have "\<exists>arr' flags'.
        filter_loop ?arr1 ?flags1 n (i + 1) (new_n + 1) =
          Some (arr', flags', new_n + 1 + int (length ?S)) \<and>
        length arr' = length ?arr1 \<and> length flags' = length ?flags1 \<and>
        (\<forall>j < nat (new_n + 1). arr' ! j = ?arr1 ! j \<and> flags' ! j = ?flags1 ! j) \<and>
        (\<forall>j < length ?S.
          arr' ! (nat (new_n + 1) + j) = ?arr1 ! (?S ! j) \<and>
          flags' ! (nat (new_n + 1) + j) = 0)"
        using 1(1)[OF True rdf f0 rda w1 w2] 1(3-) True unfolding S1 by simp
      then obtain arr' flags' where
        r: "filter_loop ?arr1 ?flags1 n (i + 1) (new_n + 1) =
          Some (arr', flags', new_n + 1 + int (length ?S))"
        and l: "length arr' = length arr" "length flags' = length flags"
        and lowpart: "\<forall>j < nat (new_n + 1). arr' ! j = ?arr1 ! j \<and> flags' ! j = ?flags1 ! j"
        and hipart: "\<forall>j < length ?S.
          arr' ! (nat (new_n + 1) + j) = ?arr1 ! (?S ! j) \<and>
          flags' ! (nat (new_n + 1) + j) = 0"
        by auto
      have Sgt: "\<And>j. j < length ?S \<Longrightarrow> nat i < ?S ! j"
      proof -
        fix j assume "j < length ?S"
        then have "?S ! j \<in> set ?S" by (rule nth_mem)
        then show "nat i < ?S ! j" using 1(3-) by (auto simp: nat_add_distrib)
      qed
      have eq: "filter_loop arr flags n i new_n = Some (arr', flags', new_n + 1 + int (length ?S))"
        using True rdf f0 rda w1 w2 r by (subst filter_loop.simps) simp
      have nn: "nat (new_n + 1) = Suc (nat new_n)" using 1(3) by (simp add: nat_add_distrib)
      have A: "\<forall>j < nat new_n. arr' ! j = arr ! j \<and> flags' ! j = flags ! j"
        using lowpart nn by auto
      have B: "arr' ! nat new_n = arr ! nat i \<and> flags' ! nat new_n = 0"
        using lowpart nn 1(3-) True by auto
      have C: "\<forall>j < length ?S. arr' ! (Suc (nat new_n) + j) = arr ! (?S ! j) \<and>
          flags' ! (Suc (nat new_n) + j) = 0"
      proof (intro allI impI)
        fix j assume j: "j < length ?S"
        have "nat new_n \<noteq> ?S ! j" using Sgt[OF j] 1(3,4) by linarith
        then show "arr' ! (Suc (nat new_n) + j) = arr ! (?S ! j) \<and>
          flags' ! (Suc (nat new_n) + j) = 0"
          using hipart j nn by auto
      qed
      show ?thesis
        apply (rule exI[of _ arr'], rule exI[of _ flags'])
        using eq l A B C
        apply (simp add: upt f0)
        apply (intro allI impI)
        subgoal for j by (cases j) auto
        done
    qed
  qed
qed

text \<open>
  Claim C5. When the live prefix \<open>n\<close> lies within both arrays,
  \<^verbatim>\<open>filter_marked_array(arr, &n, flags)\<close> returns; the new length is the number of positions
  below \<open>n\<close> whose flag was 0; the new live prefix of \<open>arr\<close> holds the keys of exactly
  those positions, in their original order; and every flag of the new live prefix is 0.
\<close>

theorem filter_marked_array_compacts:
  assumes "n \<le> int (length arr)" and "n \<le> int (length flags)"
  shows "\<exists>arr' flags' n'.
      filter_marked_array arr n flags = Some (arr', flags', n') \<and>
      n' = int (length (filter (\<lambda>i. flags ! i = 0) [0..<nat n])) \<and>
      take (nat n') arr' = map (\<lambda>i. arr ! i) (filter (\<lambda>i. flags ! i = 0) [0..<nat n]) \<and>
      (\<forall>j < nat n'. flags' ! j = 0)"
proof -
  let ?S = "filter (\<lambda>i. flags ! i = 0) [0..<nat n]"
  from filter_loop_inv [of 0 0 n arr flags] assms
  obtain arr' flags' where
    r: "filter_loop arr flags n 0 0 = Some (arr', flags', int (length ?S))"
    and l: "length arr' = length arr"
    and el: "\<forall>j < length ?S. arr' ! j = arr ! (?S ! j) \<and> flags' ! j = 0"
    by auto
  have "length ?S \<le> nat n"
    using length_filter_le [of "\<lambda>i. flags ! i = 0" "[0..<nat n]"] by simp
  then have le: "length ?S \<le> length arr'" using assms l by linarith
  have "take (length ?S) arr' = map (\<lambda>i. arr ! i) ?S"
    using el le by (intro nth_equalityI) auto
  then show ?thesis using r el by (simp add: filter_marked_array_def)
qed

text \<open>The scenario of the specification: \<open>[1,3,5,8]\<close> with 1 and 5 marked leaves
  \<open>[3,8]\<close>, length 2.\<close>

theorem filter_marked_array_compacts_witness:
  "(4::int) \<le> int (length [1, 3, 5, 8 :: size_t]) \<and> (4::int) \<le> int (length [1, 0, 1, 0 :: int]) \<and>
   (\<exists>arr' flags'. filter_marked_array [1, 3, 5, 8] 4 [1, 0, 1, 0] = Some (arr', flags', 2) \<and>
      take 2 arr' = [3, 8] \<and> (\<forall>j < 2. flags' ! j = 0))"
  using filter_marked_array_compacts [of 4 "[1, 3, 5, 8]" "[1, 0, 1, 0]"]
  by (simp add: upt_rec)

subsection \<open>Binary search\<close>

lemma sdiv2_nonneg: "0 \<le> a \<Longrightarrow> a sdiv 2 = a div (2::int)"
  by (simp add: signed_divide_int_def sgn_if)

lemma bsearch_loop_inv:
  assumes "0 \<le> low" and "high < n" and "n \<le> int (length arr)" and "n \<le> int (length flags)"
    and "sorted_wrt (<) (take (nat n) arr)"
    and "\<forall>i < nat n. arr ! i = target \<longrightarrow> low \<le> int i \<and> int i \<le> high"
  shows "(\<forall>i < nat n. arr ! i = target \<longrightarrow>
            bsearch_loop arr target flags low high =
              Some (int i, if flags ! i = 0 then flags[i := 1] else flags)) \<and>
         ((\<forall>i < nat n. arr ! i \<noteq> target) \<longrightarrow>
            bsearch_loop arr target flags low high = Some (- 1, flags))"
  using assms
proof (induction arr target flags low high rule: bsearch_loop.induct)
  case (1 arr target flags low high)
  note prems = "1.prems"
  have lt: "\<And>i j. i < j \<Longrightarrow> j < nat n \<Longrightarrow> arr ! i < arr ! j"
  proof -
    fix i j assume ij: "i < j" "j < nat n"
    have "take (nat n) arr ! i < take (nat n) arr ! j"
      using prems(3,5) ij sorted_wrt_nth_less [of "(<)" "take (nat n) arr" i j] by simp
    then show "arr ! i < arr ! j" using ij by simp
  qed
  show ?case
  proof (cases "low \<le> high")
    case False
    then have "bsearch_loop arr target flags low high = Some (- 1, flags)"
      by (subst bsearch_loop.simps) simp
    moreover have "\<forall>i < nat n. arr ! i \<noteq> target" using prems(6) False by fastforce
    ultimately show ?thesis by simp
  next
    case True
    define mid where "mid = low + (high - low) sdiv 2"
    have mid: "mid = low + (high - low) div 2" using True by (simp add: mid_def sdiv2_nonneg)
    then have mb: "low \<le> mid" "mid \<le> high" using True by auto
    then have m0: "0 \<le> mid" "mid < n" "nat mid < nat n" using prems(1,2) by auto
    have rda: "rd arr mid = Some (arr ! nat mid)" using m0 prems(3) by simp
    show ?thesis
    proof (cases "arr ! nat mid = target")
      case eq: True
      have uniq: "\<And>i. i < nat n \<Longrightarrow> arr ! i = target \<Longrightarrow> i = nat mid"
      proof (rule ccontr)
        fix i assume i: "i < nat n" "arr ! i = target" "i \<noteq> nat mid"
        then consider "i < nat mid" | "nat mid < i" by linarith
        then show False using lt [of i "nat mid"] lt [of "nat mid" i] i m0 eq by cases auto
      qed
      have rdf: "rd flags mid = Some (flags ! nat mid)" using m0 prems(4) by simp
      have fl: "(if flags ! nat mid = 0 then wr flags mid 1 else Some flags) =
          Some (if flags ! nat mid = 0 then flags[nat mid := 1] else flags)"
        using m0 prems(4) by simp
      have r: "bsearch_loop arr target flags low high =
          Some (mid, if flags ! nat mid = 0 then flags[nat mid := 1] else flags)"
        using True rda eq rdf fl by (subst bsearch_loop.simps) (simp add: mid_def [symmetric])
      show ?thesis
      proof (intro conjI allI impI)
        fix i assume "i < nat n" "arr ! i = target"
        then have "i = nat mid" by (rule uniq)
        then show "bsearch_loop arr target flags low high =
            Some (int i, if flags ! i = 0 then flags[i := 1] else flags)"
          using r m0(1) by simp
      next
        assume "\<forall>i < nat n. arr ! i \<noteq> target"
        then have False using m0(3) eq by blast
        then show "bsearch_loop arr target flags low high = Some (- 1, flags)" ..
      qed
    next
      case neq: False
      show ?thesis
      proof (cases "target < arr ! nat mid")
        case less: True
        have step: "bsearch_loop arr target flags low high = bsearch_loop arr target flags low (mid - 1)"
          using True rda neq less by (subst bsearch_loop.simps) (simp add: mid_def [symmetric])
        have inv: "\<forall>i < nat n. arr ! i = target \<longrightarrow> low \<le> int i \<and> int i \<le> mid - 1"
        proof (intro allI impI)
          fix i assume i: "i < nat n" "arr ! i = target"
          have "\<not> nat mid \<le> i"
          proof
            assume "nat mid \<le> i"
            then have "nat mid = i \<or> nat mid < i" by auto
            then show False using lt [of "nat mid" i] i less neq by auto
          qed
          then show "low \<le> int i \<and> int i \<le> mid - 1" using prems(6) i by auto
        qed
        have "mid - 1 < n" using m0 by simp
        from "1.IH"(1) [OF True mid_def rda neq less prems(1) this prems(3,4,5) inv] step
        show ?thesis by simp
      next
        case nless: False
        then have gt: "arr ! nat mid < target" using neq by auto
        have step: "bsearch_loop arr target flags low high = bsearch_loop arr target flags (mid + 1) high"
          using True rda neq nless by (subst bsearch_loop.simps) (simp add: mid_def [symmetric])
        have inv: "\<forall>i < nat n. arr ! i = target \<longrightarrow> mid + 1 \<le> int i \<and> int i \<le> high"
        proof (intro allI impI)
          fix i assume i: "i < nat n" "arr ! i = target"
          have "\<not> i \<le> nat mid"
          proof
            assume "i \<le> nat mid"
            then have "nat mid = i \<or> i < nat mid" by auto
            then show False using lt [of i "nat mid"] i gt m0 by auto
          qed
          then show "mid + 1 \<le> int i \<and> int i \<le> high" using prems(6) i by auto
        qed
        have "0 \<le> mid + 1" using m0 by simp
        from "1.IH"(2) [OF True mid_def rda neq nless this prems(2,3,4,5) inv] step
        show ?thesis by simp
      qed
    qed
  qed
qed

text \<open>
  Claim C4. Let the first \<open>n\<close> cells of \<open>arr\<close> be strictly increasing, \<open>n\<close> a
  non-negative \<^verbatim>\<open>int\<close> within both arrays, and every flag 0 or 1. If the target is at
  index \<open>i\<close>, \<^verbatim>\<open>binary_search_mark\<close> returns \<open>i\<close> and the flags differ from before in
  cell \<open>i\<close> at most, which holds 1; if the target is at no index below \<open>n\<close>, it returns
  \<open>-1\<close> and the flags are as before. The function has no write to \<open>arr\<close>, so the model
  returns no new \<open>arr\<close>.
\<close>

theorem binary_search_mark_correct:
  assumes "0 \<le> n" and "n \<le> INT_MAX" and "n \<le> int (length arr)" and "n \<le> int (length flags)"
    and "sorted_wrt (<) (take (nat n) arr)"
    and "\<forall>j < nat n. flags ! j = 0 \<or> flags ! j = 1"
  shows "(\<forall>i < nat n. arr ! i = target \<longrightarrow>
            binary_search_mark arr n target flags = Some (int i, flags[i := 1])) \<and>
         ((\<forall>i < nat n. arr ! i \<noteq> target) \<longrightarrow>
            binary_search_mark arr n target flags = Some (- 1, flags))"
proof -
  have c: "c_int (n - 1) = Some (n - 1)"
    using assms(1,2) by (simp add: c_int_def INT_MIN_def INT_MAX_def)
  have "\<forall>i < nat n. arr ! i = target \<longrightarrow> 0 \<le> int i \<and> int i \<le> n - 1" by auto
  from bsearch_loop_inv [of 0 "n - 1" n arr flags target] assms(3,4,5) this c
  have r: "(\<forall>i < nat n. arr ! i = target \<longrightarrow>
            binary_search_mark arr n target flags =
              Some (int i, if flags ! i = 0 then flags[i := 1] else flags)) \<and>
         ((\<forall>i < nat n. arr ! i \<noteq> target) \<longrightarrow>
            binary_search_mark arr n target flags = Some (- 1, flags))"
    by (simp add: binary_search_mark_def)
  have "(if flags ! i = 0 then flags[i := 1] else flags) = flags[i := 1]" if "i < nat n" for i
  proof (cases "flags ! i = 0")
    case True
    then show ?thesis by simp
  next
    case False
    then have "flags ! i = 1" using assms(6) that by auto
    then have "flags[i := 1] = flags" by (metis list_update_id)
    then show ?thesis by simp
  qed
  then show ?thesis using r by simp
qed

theorem binary_search_mark_correct_witness:
  "binary_search_mark [1, 3, 5, 8] 4 5 [0, 0, 0, 0] = Some (2, [0, 0, 1, 0]) \<and>
   binary_search_mark [1, 3, 5, 8] 4 4 [0, 0, 0, 0] = Some (- 1, [0, 0, 0, 0])"
proof -
  have s: "sorted_wrt (<) (take (nat 4) [1, 3, 5, 8 :: size_t])" by simp
  have f: "\<forall>j < nat 4. [0, 0, 0, 0 :: int] ! j = 0 \<or> [0, 0, 0, 0 :: int] ! j = 1"
    by (simp add: nth_Cons')
  have b: "(0::int) \<le> 4" "(4::int) \<le> INT_MAX" "(4::int) \<le> int (length [1, 3, 5, 8 :: size_t])"
    "(4::int) \<le> int (length [0, 0, 0, 0 :: int])"
    by (simp_all add: INT_MAX_def)
  have p: "(2::nat) < nat 4" "[1, 3, 5, 8 :: size_t] ! 2 = 5" by simp_all
  have n4: "nat 4 = Suc (Suc (Suc (Suc 0)))" by simp
  have a: "\<forall>i < nat 4. [1, 3, 5, 8 :: size_t] ! i \<noteq> 4"
    unfolding n4 by (simp add: All_less_Suc)
  have "binary_search_mark [1, 3, 5, 8] 4 5 [0, 0, 0, 0] = Some (int 2, [0, 0, 0, 0][2 := 1])"
    by (rule binary_search_mark_correct [OF b s f, of 5, THEN conjunct1, rule_format, OF p])
  moreover have "binary_search_mark [1, 3, 5, 8] 4 4 [0, 0, 0, 0] = Some (- 1, [0, 0, 0, 0])"
    by (rule binary_search_mark_correct [OF b s f, of 4, THEN conjunct2, THEN mp, OF a])
  ultimately show ?thesis by simp
qed

section \<open>Properties of the ordered registry\<close>

subsection \<open>Insertion\<close>

lemma avl_s_height: "avl_s t \<Longrightarrow> height t = tree_height t"
  by (induction t) auto

lemma avl_s_avl_inv: "avl_s t \<Longrightarrow> avl_inv t"
  by (induction t) (auto simp: avl_s_height)

lemma avl_inv_height: "avl_inv t \<Longrightarrow> height t = tree_height t"
  by (induction t) auto

lemma avl_inv_avl_s: "avl_inv t \<Longrightarrow> avl_s t"
  by (induction t) (auto simp: avl_inv_height)

lemma avl_s_height_nonneg: "avl_s t \<Longrightarrow> 0 \<le> height t"
  by (induction t) auto

lemma avl_s_height_pos: "avl_s (Node k h m l r) \<Longrightarrow> 1 \<le> h"
  using avl_s_height_nonneg [of l] avl_s_height_nonneg [of r] by auto

lemma rebalance_left:
  assumes "avl_s l1" and "avl_s r"
    and "height r - 1 \<le> height l1" and "height l1 \<le> height r + 2"
    and "height l1 = height r + 2 \<Longrightarrow> leans l1 k"
  shows "\<exists>t1. insert_rebalance (Node nk nh nm l1 r) k = Some t1 \<and> avl_s t1 \<and>
           keys_inorder t1 = keys_inorder l1 @ [nk] @ keys_inorder r \<and>
           (if height l1 = height r + 2 then height t1 = height l1
            else t1 = Node nk (1 + max (height l1) (height r)) nm l1 r)"
proof (cases "height l1 = height r + 2")
  case False
  then show ?thesis using assms(1-4)
    by (auto simp: max_int_def and_then_def max_def Let_def split: if_splits)
next
  case True
  from assms(5) [OF True] obtain lk lh lm ll lr where
    l1: "l1 = Node lk lh lm ll lr" and
    ln: "(k < lk \<and> height ll = height lr + 1) \<or> (lk < k \<and> height lr = height ll + 1)"
    by (auto simp: leans_def split: avl_node.splits)
  show ?thesis
  proof (cases "k < lk")
    case kl: True
    then show ?thesis using assms(1-4) True l1 ln
      by (auto simp: max_int_def and_then_def max_def Let_def split: if_splits)
  next
    case kg: False
    then have g: "lk < k" "height lr = height ll + 1" using ln by auto
    then obtain rk rh rm rl rr where lr: "lr = Node rk rh rm rl rr"
      using avl_s_height_nonneg [of ll] assms(1) l1 by (cases lr) auto
    show ?thesis using assms(1-4) True l1 g lr kg
      by (auto simp: max_int_def and_then_def max_def Let_def split: if_splits)
  qed
qed

lemma rebalance_right:
  assumes "avl_s l" and "avl_s r1"
    and "height l - 1 \<le> height r1" and "height r1 \<le> height l + 2"
    and "height r1 = height l + 2 \<Longrightarrow> leans r1 k"
  shows "\<exists>t1. insert_rebalance (Node nk nh nm l r1) k = Some t1 \<and> avl_s t1 \<and>
           keys_inorder t1 = keys_inorder l @ [nk] @ keys_inorder r1 \<and>
           (if height r1 = height l + 2 then height t1 = height r1
            else t1 = Node nk (1 + max (height l) (height r1)) nm l r1)"
proof (cases "height r1 = height l + 2")
  case False
  then show ?thesis using assms(1-4)
    by (auto simp: max_int_def and_then_def max_def Let_def split: if_splits)
next
  case True
  from assms(5) [OF True] obtain rk rh rm rl rr where
    r1: "r1 = Node rk rh rm rl rr" and
    ln: "(k < rk \<and> height rl = height rr + 1) \<or> (rk < k \<and> height rr = height rl + 1)"
    by (auto simp: leans_def split: avl_node.splits)
  show ?thesis
  proof (cases "rk < k")
    case kg: True
    then show ?thesis using assms(1-4) True r1 ln
      by (auto simp: max_int_def and_then_def max_def Let_def split: if_splits)
  next
    case kl: False
    then have g: "k < rk" "height rl = height rr + 1" using ln by auto
    then obtain lk lh lm ll lr where rl: "rl = Node lk lh lm ll lr"
      using avl_s_height_nonneg [of rr] assms(2) r1 by (cases rl) auto
    show ?thesis using assms(1-4) True r1 g rl kl
      by (auto simp: max_int_def and_then_def max_def Let_def split: if_splits)
  qed
qed

lemma insert_node_post:
  assumes "avl_s t" and "sorted_wrt (<) (keys_inorder t)"
  shows "\<exists>t1 ins. insert_node t k = Some (t1, ins) \<and> insert_post t k t1 ins"
  using assms
proof (induction t)
  case Null
  show ?case by (simp add: insert_post_def new_node_def)
next
  case (Node nk nh nm l r)
  note avl = Node.prems(1) and srt = Node.prems(2)
  have al: "avl_s l" and ar: "avl_s r" and nh: "nh = 1 + max (height l) (height r)"
    and bal: "\<bar>height l - height r\<bar> \<le> 1" using avl by auto
  have sl: "sorted_wrt (<) (keys_inorder l)" and sr: "sorted_wrt (<) (keys_inorder r)"
    and ll: "\<forall>x \<in> set (keys_inorder l). x < nk" and rr: "\<forall>x \<in> set (keys_inorder r). nk < x"
    using srt by (auto simp: sorted_wrt_append)
  have hl0: "0 \<le> height l" and hr0: "0 \<le> height r"
    using al ar by (simp_all add: avl_s_height_nonneg)
  show ?case
  proof (cases "k < nk")
    case lt: True
    from Node.IH(1) [OF al sl] obtain l1 ins where
      i: "insert_node l k = Some (l1, ins)" and p: "insert_post l k l1 ins" by blast
    have al1: "avl_s l1" and hl1: "height l1 = height l \<or> height l1 = height l + 1"
      and ln: "height l1 = height l + 1 \<and> l \<noteq> Null \<longrightarrow> leans l1 k"
      and i0: "ins = 0 \<longrightarrow> l1 = l" and i01: "ins = 0 \<or> ins = 1"
      and im: "ins = 0 \<longleftrightarrow> k \<in> set (keys_inorder l)"
      and s1: "set (keys_inorder l1) = insert k (set (keys_inorder l))"
      and len1: "length (keys_inorder l1) = length (keys_inorder l) + nat ins"
      and sl1: "sorted_wrt (<) (keys_inorder l1)"
      using p unfolding insert_post_def by blast+
    have b1: "height r - 1 \<le> height l1" and b2: "height l1 \<le> height r + 2"
      using hl1 bal by auto
    have b3: "height l1 = height r + 2 \<Longrightarrow> leans l1 k"
    proof -
      assume a: "height l1 = height r + 2"
      then have "height l1 = height l + 1" using hl1 bal by auto
      moreover have "l \<noteq> Null" using a hl1 bal hr0 by auto
      ultimately show "leans l1 k" using ln by simp
    qed
    from rebalance_left [OF al1 ar b1 b2 b3, of nk nh nm] obtain t1 where
      rb: "insert_rebalance (Node nk nh nm l1 r) k = Some t1" and at1: "avl_s t1"
      and k1: "keys_inorder t1 = keys_inorder l1 @ [nk] @ keys_inorder r"
      and sh: "if height l1 = height r + 2 then height t1 = height l1
            else t1 = Node nk (1 + max (height l1) (height r)) nm l1 r"
      by blast
    have res: "insert_node (Node nk nh nm l r) k = Some (t1, ins)"
      using lt i rb by simp
    have h1: "height t1 = nh \<or> height t1 = nh + 1"
      using sh hl1 bal nh by (auto split: if_splits)
    have h2: "height t1 = nh + 1 \<longrightarrow> leans t1 k"
      using sh hl1 bal nh lt by (auto simp: leans_def split: if_splits)
    have h3: "ins = 0 \<longrightarrow> t1 = Node nk nh nm l r"
      using sh i0 bal nh by (auto split: if_splits)
    have h4: "ins = 0 \<longleftrightarrow> k \<in> set (keys_inorder (Node nk nh nm l r))"
      using im lt rr by auto
    have h5: "set (keys_inorder t1) = insert k (set (keys_inorder (Node nk nh nm l r)))"
      using k1 s1 by auto
    have h6: "length (keys_inorder t1) = length (keys_inorder (Node nk nh nm l r)) + nat ins"
      using k1 len1 by simp
    have o1: "\<forall>x \<in> set (keys_inorder l1). x < nk" using s1 ll lt by auto
    have o2: "\<forall>x \<in> set (keys_inorder l1). \<forall>y \<in> set (keys_inorder r). x < y"
      using o1 rr by (blast intro: less_trans)
    have h7: "sorted_wrt (<) (keys_inorder t1)"
      using k1 sl1 sr o1 o2 rr by (simp add: sorted_wrt_append)
    have "insert_post (Node nk nh nm l r) k t1 ins"
      unfolding insert_post_def using at1 h1 h2 i01 h3 h4 h5 h6 h7 by simp
    with res show ?thesis by blast
  next
    case nlt: False
    show ?thesis
    proof (cases "nk < k")
      case gt: True
      from Node.IH(2) [OF ar sr] obtain r1 ins where
        i: "insert_node r k = Some (r1, ins)" and p: "insert_post r k r1 ins" by blast
      have ar1: "avl_s r1" and hr1: "height r1 = height r \<or> height r1 = height r + 1"
        and ln: "height r1 = height r + 1 \<and> r \<noteq> Null \<longrightarrow> leans r1 k"
        and i0: "ins = 0 \<longrightarrow> r1 = r" and i01: "ins = 0 \<or> ins = 1"
        and im: "ins = 0 \<longleftrightarrow> k \<in> set (keys_inorder r)"
        and s1: "set (keys_inorder r1) = insert k (set (keys_inorder r))"
        and len1: "length (keys_inorder r1) = length (keys_inorder r) + nat ins"
        and sr1: "sorted_wrt (<) (keys_inorder r1)"
        using p unfolding insert_post_def by blast+
      have b1: "height l - 1 \<le> height r1" and b2: "height r1 \<le> height l + 2"
        using hr1 bal by auto
      have b3: "height r1 = height l + 2 \<Longrightarrow> leans r1 k"
      proof -
        assume a: "height r1 = height l + 2"
        then have "height r1 = height r + 1" using hr1 bal by auto
        moreover have "r \<noteq> Null" using a hr1 bal hl0 by auto
        ultimately show "leans r1 k" using ln by simp
      qed
      from rebalance_right [OF al ar1 b1 b2 b3, of nk nh nm] obtain t1 where
        rb: "insert_rebalance (Node nk nh nm l r1) k = Some t1" and at1: "avl_s t1"
        and k1: "keys_inorder t1 = keys_inorder l @ [nk] @ keys_inorder r1"
        and sh: "if height r1 = height l + 2 then height t1 = height r1
              else t1 = Node nk (1 + max (height l) (height r1)) nm l r1"
        by blast
      have res: "insert_node (Node nk nh nm l r) k = Some (t1, ins)"
        using nlt gt i rb by simp
      have h1: "height t1 = nh \<or> height t1 = nh + 1"
        using sh hr1 bal nh by (auto split: if_splits)
      have h2: "height t1 = nh + 1 \<longrightarrow> leans t1 k"
        using sh hr1 bal nh gt by (auto simp: leans_def split: if_splits)
      have h3: "ins = 0 \<longrightarrow> t1 = Node nk nh nm l r"
        using sh i0 bal nh by (auto split: if_splits)
      have h4: "ins = 0 \<longleftrightarrow> k \<in> set (keys_inorder (Node nk nh nm l r))"
        using im gt ll by auto
      have h5: "set (keys_inorder t1) = insert k (set (keys_inorder (Node nk nh nm l r)))"
        using k1 s1 by auto
      have h6: "length (keys_inorder t1) = length (keys_inorder (Node nk nh nm l r)) + nat ins"
        using k1 len1 by simp
      have o1: "\<forall>x \<in> set (keys_inorder r1). nk < x" using s1 rr gt by auto
      have o2: "\<forall>x \<in> set (keys_inorder l). \<forall>y \<in> set (keys_inorder r1). x < y"
        using o1 ll by (blast intro: less_trans)
      have h7: "sorted_wrt (<) (keys_inorder t1)"
        using k1 sr1 sl o1 o2 ll by (simp add: sorted_wrt_append)
      have "insert_post (Node nk nh nm l r) k t1 ins"
        unfolding insert_post_def using at1 h1 h2 i01 h3 h4 h5 h6 h7 by simp
      with res show ?thesis by blast
    next
      case ngt: False
      then have eq: "k = nk" using nlt by simp
      have "insert_node (Node nk nh nm l r) k = Some (Node nk nh nm l r, 0)"
        using eq by simp
      moreover have "insert_post (Node nk nh nm l r) k (Node nk nh nm l r) 0"
        unfolding insert_post_def using avl srt eq by simp
      ultimately show ?thesis by blast
    qed
  qed
qed

lemma inorder_traverse_fold:
  "inorder_traverse t f d = fold f (nodes_inorder t) d"
  by (induction t arbitrary: d) auto

lemma key_nodes_inorder: "map key (nodes_inorder t) = keys_inorder t"
  by (induction t) auto

lemma visited_keys:
  "inorder_traverse t (\<lambda>node visited. visited @ [key node]) acc = acc @ keys_inorder t"
  by (induction t arbitrary: acc) auto

lemma avl_insert_post:
  assumes "avl_s (root tree)" and "sorted_wrt (<) (keys_inorder (root tree))"
  shows "\<exists>t1 ins. avl_insert tree k = Some (tree\<lparr>root := t1\<rparr>, ins) \<and>
           insert_post (root tree) k t1 ins"
proof -
  from insert_node_post [OF assms, of k] obtain t1 ins where
    "insert_node (root tree) k = Some (t1, ins)" and "insert_post (root tree) k t1 ins"
    by blast
  then show ?thesis by (auto simp: avl_insert_def)
qed

lemma avl_inserts_post:
  assumes "avl_s (root tree)" and "sorted_wrt (<) (keys_inorder (root tree))"
  shows "\<exists>tree1 rs. avl_inserts tree ks = Some (tree1, rs) \<and>
           avl_s (root tree1) \<and> sorted_wrt (<) (keys_inorder (root tree1)) \<and>
           set (keys_inorder (root tree1)) = set (keys_inorder (root tree)) \<union> set ks"
  using assms
proof (induction ks arbitrary: tree)
  case Nil
  then show ?case by simp
next
  case (Cons k ks)
  from avl_insert_post [OF Cons.prems, of k] obtain t1 ins where
    i: "avl_insert tree k = Some (tree\<lparr>root := t1\<rparr>, ins)" and
    p: "insert_post (root tree) k t1 ins" by blast
  have a: "avl_s (root (tree\<lparr>root := t1\<rparr>))"
    and s: "sorted_wrt (<) (keys_inorder (root (tree\<lparr>root := t1\<rparr>)))"
    and e: "set (keys_inorder t1) = insert k (set (keys_inorder (root tree)))"
    using p unfolding insert_post_def by simp_all
  from Cons.IH [OF a s] obtain tree1 rs where
    r: "avl_inserts (tree\<lparr>root := t1\<rparr>) ks = Some (tree1, rs)" and
    q: "avl_s (root tree1)" "sorted_wrt (<) (keys_inorder (root tree1))"
       "set (keys_inorder (root tree1)) = set (keys_inorder (root (tree\<lparr>root := t1\<rparr>))) \<union> set ks"
    by blast
  have "avl_inserts tree (k # ks) = Some (tree1, ins # rs)" using i r by simp
  moreover have "set (keys_inorder (root tree1)) = set (keys_inorder (root tree)) \<union> set (k # ks)"
    using q(3) e by simp
  ultimately show ?case using q(1,2) by blast
qed

text \<open>
  Claim C2. Every finite sequence of \<^verbatim>\<open>avl_insert\<close> calls on the tree of \<^verbatim>\<open>avl_create\<close>
  returns, and in the resulting tree every node has subtrees whose heights differ by at
  most one and a \<^verbatim>\<open>height\<close> field equal to 1 plus the maximum of its children's heights.
\<close>

theorem avl_inserts_balanced:
  "\<exists>tree rs. avl_inserts avl_create ks = Some (tree, rs) \<and> avl_inv (root tree)"
proof -
  have "avl_s (root avl_create)" "sorted_wrt (<) (keys_inorder (root avl_create))"
    by (simp_all add: avl_create_def)
  from avl_inserts_post [OF this, of ks] show ?thesis
    by (blast intro: avl_s_avl_inv)
qed

text \<open>The scenario of the specification: seven keys give a tree of height 3.\<close>

theorem avl_inserts_balanced_witness:
  "\<exists>tree rs. avl_inserts avl_create [50, 30, 70, 20, 40, 60, 80] = Some (tree, rs) \<and>
      avl_inv (root tree) \<and> tree_height (root tree) = 3"
  using avl_inserts_balanced [of "[50, 30, 70, 20, 40, 60, 80]"]
  by (simp add: avl_create_def avl_insert_def new_node_def max_int_def and_then_def)

text \<open>
  Claim C3. After every finite sequence of \<^verbatim>\<open>avl_insert\<close> calls on the tree of
  \<^verbatim>\<open>avl_create\<close>, \<^verbatim>\<open>avl_inorder\<close> visits the nodes in strictly increasing key order: a
  visitor that appends the key of each node it is called on ends with a strictly
  increasing list.
\<close>

theorem avl_inorder_increasing:
  "\<exists>tree rs. avl_inserts avl_create ks = Some (tree, rs) \<and>
      sorted_wrt (<) (avl_inorder tree (\<lambda>node visited. visited @ [key node]) [])"
proof -
  have "avl_s (root avl_create)" "sorted_wrt (<) (keys_inorder (root avl_create))"
    by (simp_all add: avl_create_def)
  from avl_inserts_post [OF this, of ks] show ?thesis
    by (auto simp: avl_inorder_def visited_keys)
qed

theorem avl_inorder_increasing_witness:
  "\<exists>tree rs. avl_inserts avl_create [50, 30, 70, 20, 40, 60, 80] = Some (tree, rs) \<and>
      avl_inorder tree (\<lambda>node visited. visited @ [key node]) [] = [20, 30, 40, 50, 60, 70, 80]"
  using avl_inorder_increasing [of "[50, 30, 70, 20, 40, 60, 80]"]
  by (simp add: avl_create_def avl_insert_def new_node_def max_int_def and_then_def avl_inorder_def)

text \<open>
  Claim C6. On a tree that satisfies the invariants of the registry (balanced with
  correct height fields, keys in search-tree order) and a key \<open>k\<close> not in it, the first
  \<^verbatim>\<open>avl_insert\<close> returns 1 and the tree has exactly one key more, \<open>k\<close>; a second
  \<^verbatim>\<open>avl_insert\<close> of \<open>k\<close> returns 0 and the tree after it is the tree before it, in every
  field of every node. (\<open>registry_reachable\<close> below: every tree that \<^verbatim>\<open>avl_create\<close>,
  \<^verbatim>\<open>avl_insert\<close> and \<^verbatim>\<open>avl_mark\<close> produce satisfies these invariants.)
\<close>

theorem avl_insert_twice:
  assumes "avl_inv (root tree)" and "sorted_wrt (<) (keys_inorder (root tree))"
    and "k \<notin> set (keys_inorder (root tree))"
  shows "\<exists>tree1. avl_insert tree k = Some (tree1, 1) \<and>
           length (keys_inorder (root tree1)) = length (keys_inorder (root tree)) + 1 \<and>
           set (keys_inorder (root tree1)) = insert k (set (keys_inorder (root tree))) \<and>
           avl_insert tree1 k = Some (tree1, 0)"
proof -
  have a: "avl_s (root tree)" using assms(1) by (rule avl_inv_avl_s)
  from avl_insert_post [OF a assms(2), of k] obtain t1 ins where
    i: "avl_insert tree k = Some (tree\<lparr>root := t1\<rparr>, ins)" and
    p: "insert_post (root tree) k t1 ins" by blast
  let ?tree1 = "tree\<lparr>root := t1\<rparr>"
  have ins: "ins = 1" using p assms(3) unfolding insert_post_def by blast
  have len: "length (keys_inorder t1) = length (keys_inorder (root tree)) + 1"
    using p ins unfolding insert_post_def by simp
  have st: "set (keys_inorder t1) = insert k (set (keys_inorder (root tree)))"
    using p unfolding insert_post_def by blast
  have a1: "avl_s (root ?tree1)" and s1: "sorted_wrt (<) (keys_inorder (root ?tree1))"
    using p unfolding insert_post_def by simp_all
  from avl_insert_post [OF a1 s1, of k] obtain t2 ins2 where
    i2: "avl_insert ?tree1 k = Some (?tree1\<lparr>root := t2\<rparr>, ins2)" and
    p2: "insert_post (root ?tree1) k t2 ins2" by blast
  have "k \<in> set (keys_inorder (root ?tree1))" using st by simp
  then have "ins2 = 0" and "t2 = t1" using p2 unfolding insert_post_def by auto
  then have "avl_insert ?tree1 k = Some (?tree1, 0)" using i2 by simp
  then show ?thesis using i ins len st by auto
qed

theorem avl_insert_twice_witness:
  "avl_inv (root \<lparr>root = Node 50 2 0 (Node 30 1 0 Null Null) (Node 70 1 1 Null Null)\<rparr>) \<and>
   sorted_wrt (<) (keys_inorder (root \<lparr>root = Node 50 2 0 (Node 30 1 0 Null Null) (Node 70 1 1 Null Null)\<rparr>)) \<and>
   20 \<notin> set (keys_inorder (root \<lparr>root = Node 50 2 0 (Node 30 1 0 Null Null) (Node 70 1 1 Null Null)\<rparr>)) \<and>
   avl_insert \<lparr>root = Node 50 2 0 (Node 30 1 0 Null Null) (Node 70 1 1 Null Null)\<rparr> 20 =
     Some (\<lparr>root = Node 50 3 0 (Node 30 2 0 (Node 20 1 0 Null Null) Null) (Node 70 1 1 Null Null)\<rparr>, 1) \<and>
   avl_insert \<lparr>root = Node 50 3 0 (Node 30 2 0 (Node 20 1 0 Null Null) Null) (Node 70 1 1 Null Null)\<rparr> 20 =
     Some (\<lparr>root = Node 50 3 0 (Node 30 2 0 (Node 20 1 0 Null Null) Null) (Node 70 1 1 Null Null)\<rparr>, 0)"
  using avl_insert_twice
    [of "\<lparr>root = Node 50 2 0 (Node 30 1 0 Null Null) (Node 70 1 1 Null Null)\<rparr>" 20]
  by (simp add: avl_insert_def new_node_def max_int_def and_then_def)

subsection \<open>Marking\<close>

lemma keys_set_marked [simp]: "keys_inorder (set_marked k t) = keys_inorder t"
  by (induction t) auto

lemma flags_ok_set_marked: "flags_ok t \<Longrightarrow> flags_ok (set_marked k t)"
  by (induction t) auto

lemma set_marked_absent: "k \<notin> set (keys_inorder t) \<Longrightarrow> set_marked k t = t"
  by (induction t) auto

lemma mark_node_absent: "k \<notin> set (keys_inorder t) \<Longrightarrow> mark_node t k found = (t, 0, found)"
  by (induction t) auto

lemma mark_node_present:
  assumes "sorted_wrt (<) (keys_inorder t)" and "flags_ok t" and "k \<in> set (keys_inorder t)"
  shows "mark_node t k found = (set_marked k t, 1, 1)"
  using assms
proof (induction t)
  case Null
  then show ?case by simp
next
  case (Node nk nh nm l r)
  have sl: "sorted_wrt (<) (keys_inorder l)" and sr: "sorted_wrt (<) (keys_inorder r)"
    and ll: "\<forall>x \<in> set (keys_inorder l). x < nk" and rr: "\<forall>x \<in> set (keys_inorder r). nk < x"
    using Node.prems(1) by (auto simp: sorted_wrt_append)
  have fl: "flags_ok l" and fr: "flags_ok r" and m: "nm = 0 \<or> nm = 1"
    using Node.prems(2) by auto
  consider (eq) "k = nk" | (lt) "k < nk" | (gt) "nk < k" by (rule linorder_cases) auto
  then show ?case
  proof cases
    case eq
    then have "k \<notin> set (keys_inorder l)" "k \<notin> set (keys_inorder r)" using ll rr by auto
    then have "set_marked k l = l" "set_marked k r = r" by (simp_all add: set_marked_absent)
    then show ?thesis using eq m by auto
  next
    case lt
    then have nr: "k \<notin> set (keys_inorder r)" using rr by auto
    then have "k \<in> set (keys_inorder l)" using Node.prems(3) lt by auto
    from Node.IH(1) [OF sl fl this] nr lt show ?thesis by (auto simp: set_marked_absent)
  next
    case gt
    then have nl: "k \<notin> set (keys_inorder l)" using ll by auto
    then have "k \<in> set (keys_inorder r)" using Node.prems(3) gt by auto
    from Node.IH(2) [OF sr fr this] nl gt show ?thesis by (auto simp: set_marked_absent)
  qed
qed

lemma set_marked_idem: "set_marked k (set_marked k t) = set_marked k t"
  by (induction t) auto

lemma avl_mark_present:
  assumes "sorted_wrt (<) (keys_inorder (root tree))" and "flags_ok (root tree)"
    and "k \<in> set (keys_inorder (root tree))"
  shows "avl_mark tree k = (tree\<lparr>root := set_marked k (root tree)\<rparr>, 1)"
  using mark_node_present [OF assms, of 0] by (simp add: avl_mark_def)

lemma avl_marks_present:
  assumes "sorted_wrt (<) (keys_inorder (root tree))" and "flags_ok (root tree)"
    and "k \<in> set (keys_inorder (root tree))"
  shows "avl_marks tree k (Suc n) = (tree\<lparr>root := set_marked k (root tree)\<rparr>, replicate (Suc n) 1)"
  using assms
proof (induction n arbitrary: tree)
  case 0
  then show ?case by (simp add: avl_mark_present)
next
  case (Suc n)
  let ?t1 = "tree\<lparr>root := set_marked k (root tree)\<rparr>"
  have "avl_marks ?t1 k (Suc n) = (?t1\<lparr>root := set_marked k (root ?t1)\<rparr>, replicate (Suc n) 1)"
    using Suc.prems by (intro Suc.IH) (simp_all add: flags_ok_set_marked)
  then have "avl_marks ?t1 k (Suc n) = (?t1, replicate (Suc n) 1)"
    by (simp add: set_marked_idem)
  then show ?case using avl_mark_present [OF Suc.prems]
    by (simp del: avl_marks.simps add: avl_marks.simps(2) [of tree k "Suc n"])
qed

text \<open>
  Claim C7. On a tree with keys in search-tree order and flags 0 or 1: if \<open>k\<close> is present,
  every one of \<open>n \<ge> 1\<close> consecutive \<^verbatim>\<open>avl_mark\<close> calls returns 1, and the tree after them
  is, for every such \<open>n\<close>, the tree before with the flag of \<open>k\<close> at 1 (so the first call
  sets the flag, later calls change nothing, and shape, keys, heights and the other
  flags are as before); if \<open>k\<close> is absent, \<^verbatim>\<open>avl_mark\<close> returns 0 and the tree is as before.
  (\<open>registry_reachable\<close> below: every tree that \<^verbatim>\<open>avl_create\<close>, \<^verbatim>\<open>avl_insert\<close> and
  \<^verbatim>\<open>avl_mark\<close> produce satisfies both conditions.)
\<close>

theorem avl_mark_idempotent:
  assumes "sorted_wrt (<) (keys_inorder (root tree))" and "flags_ok (root tree)"
  shows "(k \<in> set (keys_inorder (root tree)) \<longrightarrow>
           (\<forall>n \<ge> 1. avl_marks tree k n =
              (tree\<lparr>root := set_marked k (root tree)\<rparr>, replicate n 1))) \<and>
         (k \<notin> set (keys_inorder (root tree)) \<longrightarrow> avl_mark tree k = (tree, 0))"
proof (intro conjI impI allI)
  fix n :: nat
  assume k: "k \<in> set (keys_inorder (root tree))" and n: "1 \<le> n"
  then obtain m where "n = Suc m" by (cases n) auto
  then show "avl_marks tree k n = (tree\<lparr>root := set_marked k (root tree)\<rparr>, replicate n 1)"
    using avl_marks_present [OF assms k, of m] by simp
next
  assume "k \<notin> set (keys_inorder (root tree))"
  then show "avl_mark tree k = (tree, 0)"
    by (simp add: avl_mark_def mark_node_absent)
qed

theorem avl_mark_idempotent_witness:
  "avl_marks \<lparr>root = Node 50 2 0 (Node 30 1 0 Null Null) (Node 70 1 1 Null Null)\<rparr> 30 3 =
     (\<lparr>root = Node 50 2 0 (Node 30 1 1 Null Null) (Node 70 1 1 Null Null)\<rparr>, [1, 1, 1]) \<and>
   avl_mark \<lparr>root = Node 50 2 0 (Node 30 1 0 Null Null) (Node 70 1 1 Null Null)\<rparr> 40 =
     (\<lparr>root = Node 50 2 0 (Node 30 1 0 Null Null) (Node 70 1 1 Null Null)\<rparr>, 0)"
proof -
  let ?t = "\<lparr>root = Node 50 2 0 (Node 30 1 0 Null Null) (Node 70 1 1 Null Null)\<rparr>"
  have s: "sorted_wrt (<) (keys_inorder (root ?t))" and f: "flags_ok (root ?t)" by simp_all
  have p: "30 \<in> set (keys_inorder (root ?t))" and a: "40 \<notin> set (keys_inorder (root ?t))"
    and n: "(1::nat) \<le> 3" by simp_all
  have "avl_marks ?t 30 3 = (?t\<lparr>root := set_marked 30 (root ?t)\<rparr>, replicate 3 1)"
    by (rule avl_mark_idempotent [OF s f, of 30, THEN conjunct1, THEN mp, OF p, rule_format, OF n])
  moreover have "avl_mark ?t 40 = (?t, 0)"
    by (rule avl_mark_idempotent [OF s f, of 40, THEN conjunct2, THEN mp, OF a])
  ultimately show ?thesis by (simp add: numeral_3_eq_3)
qed

subsection \<open>Every registry the operations produce satisfies the invariants\<close>

lemma right_rotate_flags: "right_rotate t = Some t1 \<Longrightarrow> flags_ok t \<Longrightarrow> flags_ok t1"
  by (cases t rule: right_rotate.cases) (auto simp: Let_def)

lemma left_rotate_flags: "left_rotate t = Some t1 \<Longrightarrow> flags_ok t \<Longrightarrow> flags_ok t1"
  by (cases t rule: left_rotate.cases) (auto simp: Let_def)

lemma insert_rebalance_flags:
  assumes "insert_rebalance t k = Some t1" and "flags_ok t"
  shows "flags_ok t1"
proof (cases t)
  case Null
  then show ?thesis using assms by simp
next
  case (Node nk nh nm l r)
  let ?h1 = "1 + max_int (height l) (height r)"
  have f: "flags_ok (Node nk ?h1 nm l r)" "flags_ok l" "flags_ok r" "nm = 0 \<or> nm = 1"
    using assms(2) Node by auto
  have rb: "insert_rebalance (Node nk nh nm l r) k = Some t1" using assms(1) Node by simp
  consider
      (a) "right_rotate (Node nk ?h1 nm l r) = Some t1"
    | (b) "left_rotate (Node nk ?h1 nm l r) = Some t1"
    | (c) l1 where "left_rotate l = Some l1" "right_rotate (Node nk ?h1 nm l1 r) = Some t1"
    | (d) r1 where "right_rotate r = Some r1" "left_rotate (Node nk ?h1 nm l r1) = Some t1"
    | (e) "t1 = Node nk ?h1 nm l r"
  proof (cases "1 < height l - height r")
    case hi: True
    show ?thesis
    proof (cases l)
      case Null
      then show ?thesis using rb hi by (simp add: Let_def and_then_def)
    next
      case (Node lk lh lm ll lr)
      show ?thesis
      proof (cases "k < lk")
        case True
        then have "right_rotate (avl_node.Node nk ?h1 nm l r) = Some t1"
          using rb hi Node by (simp add: Let_def and_then_def)
        then show ?thesis by (rule a)
      next
        case False
        show ?thesis
        proof (cases "lk < k")
          case True
          then obtain l1 where "left_rotate l = Some l1"
            "right_rotate (avl_node.Node nk ?h1 nm l1 r) = Some t1"
            using rb hi Node False by (auto simp: Let_def and_then_def split: bind_splits)
          then show ?thesis by (rule c)
        next
          case nlt: False
          then have "t1 = avl_node.Node nk ?h1 nm l r"
            using rb hi Node False by (simp add: Let_def and_then_def)
          then show ?thesis by (rule e)
        qed
      qed
    qed
  next
    case nhi: False
    show ?thesis
    proof (cases "height l - height r < - 1")
      case lo: True
      show ?thesis
      proof (cases r)
        case Null
        then show ?thesis using rb nhi lo by (simp add: Let_def and_then_def)
      next
        case (Node rk rh rm rl rr)
        show ?thesis
        proof (cases "rk < k")
          case True
          then have "left_rotate (avl_node.Node nk ?h1 nm l r) = Some t1"
            using rb nhi lo Node by (simp add: Let_def and_then_def)
          then show ?thesis by (rule b)
        next
          case False
          show ?thesis
          proof (cases "k < rk")
            case True
            then obtain r1 where "right_rotate r = Some r1"
              "left_rotate (avl_node.Node nk ?h1 nm l r1) = Some t1"
              using rb nhi lo Node False by (auto simp: Let_def and_then_def split: bind_splits)
            then show ?thesis by (rule d)
          next
            case ngt: False
            then have "t1 = avl_node.Node nk ?h1 nm l r"
              using rb nhi lo Node False by (simp add: Let_def and_then_def)
            then show ?thesis by (rule e)
          qed
        qed
      qed
    next
      case False
      then have "t1 = Node nk ?h1 nm l r"
        using rb nhi by (simp add: Let_def and_then_def)
      then show ?thesis by (rule e)
    qed
  qed
  then show ?thesis
  proof cases
    case a
    then show ?thesis using f by (blast intro: right_rotate_flags)
  next
    case b
    then show ?thesis using f by (blast intro: left_rotate_flags)
  next
    case c
    have "flags_ok l1" using c(1) f(2) by (rule left_rotate_flags)
    then have "flags_ok (Node nk ?h1 nm l1 r)" using f by simp
    then show ?thesis using c(2) by (blast intro: right_rotate_flags)
  next
    case d
    have "flags_ok r1" using d(1) f(3) by (rule right_rotate_flags)
    then have "flags_ok (Node nk ?h1 nm l r1)" using f by simp
    then show ?thesis using d(2) by (blast intro: left_rotate_flags)
  next
    case e
    then show ?thesis using f by simp
  qed
qed

lemma insert_node_flags:
  "insert_node t k = Some (t1, ins) \<Longrightarrow> flags_ok t \<Longrightarrow> flags_ok t1"
proof (induction t arbitrary: t1 ins)
  case Null
  then show ?case by (auto simp: new_node_def)
next
  case (Node nk nh nm l r)
  have f: "flags_ok l" "flags_ok r" "nm = 0 \<or> nm = 1" using Node.prems(2) by auto
  consider (lt) "k < nk" | (gt) "\<not> k < nk" "nk < k" | (eq) "\<not> k < nk" "\<not> nk < k" by blast
  then show ?case
  proof cases
    case lt
    with Node.prems(1) obtain l1 where
      i: "insert_node l k = Some (l1, ins)" and
      rb: "insert_rebalance (Node nk nh nm l1 r) k = Some t1"
      by (auto split: bind_splits)
    have "flags_ok l1" using Node.IH(1) [OF i f(1)] .
    then have "flags_ok (Node nk nh nm l1 r)" using f by simp
    with rb show ?thesis by (rule insert_rebalance_flags)
  next
    case gt
    with Node.prems(1) obtain r1 where
      i: "insert_node r k = Some (r1, ins)" and
      rb: "insert_rebalance (Node nk nh nm l r1) k = Some t1"
      by (auto split: bind_splits)
    have "flags_ok r1" using Node.IH(2) [OF i f(2)] .
    then have "flags_ok (Node nk nh nm l r1)" using f by simp
    with rb show ?thesis by (rule insert_rebalance_flags)
  next
    case eq
    with Node.prems show ?thesis by auto
  qed
qed

lemma height_set_marked [simp]: "height (set_marked k t) = height t"
  by (cases t) auto

lemma avl_s_set_marked: "avl_s t \<Longrightarrow> avl_s (set_marked k t)"
  by (induction t) auto

lemma registry_run_inv:
  assumes "avl_s (root tree)" and "sorted_wrt (<) (keys_inorder (root tree))"
    and "flags_ok (root tree)"
  shows "\<exists>tree1. registry_run tree cs = Some tree1 \<and> avl_inv (root tree1) \<and>
           sorted_wrt (<) (keys_inorder (root tree1)) \<and> flags_ok (root tree1)"
  using assms
proof (induction tree cs rule: registry_run.induct)
  case (1 tree)
  then show ?case by (simp add: avl_s_avl_inv)
next
  case (2 tree k cs)
  from insert_node_post [OF "2.prems"(1,2), of k] obtain t1 ins where
    n: "insert_node (root tree) k = Some (t1, ins)" and
    p: "insert_post (root tree) k t1 ins" by blast
  have i: "avl_insert tree k = Some (tree\<lparr>root := t1\<rparr>, ins)"
    using n by (simp add: avl_insert_def)
  have f: "flags_ok (root (tree\<lparr>root := t1\<rparr>))"
    using insert_node_flags [OF n "2.prems"(3)] by simp
  have a: "avl_s (root (tree\<lparr>root := t1\<rparr>))"
    and s: "sorted_wrt (<) (keys_inorder (root (tree\<lparr>root := t1\<rparr>)))"
    using p unfolding insert_post_def by simp_all
  from "2.IH" [OF i refl a s f] i show ?case by simp
next
  case (3 tree k cs)
  define tree1 where "tree1 = (if k \<in> set (keys_inorder (root tree))
    then tree\<lparr>root := set_marked k (root tree)\<rparr> else tree)"
  define r :: int where "r = (if k \<in> set (keys_inorder (root tree)) then 1 else 0)"
  have m: "avl_mark tree k = (tree1, r)"
    using avl_mark_present [OF "3.prems"(2,3), of k] mark_node_absent [of k "root tree" 0]
    by (auto simp: tree1_def r_def avl_mark_def)
  have a: "avl_s (root tree1)" and s: "sorted_wrt (<) (keys_inorder (root tree1))"
    and f: "flags_ok (root tree1)"
    using "3.prems" by (auto simp: tree1_def avl_s_set_marked flags_ok_set_marked)
  from "3.IH" [OF m [symmetric] a s f] m show ?case by simp
qed

lemma registry_reachable:
  "\<exists>tree. registry_run avl_create cs = Some tree \<and> avl_inv (root tree) \<and>
      sorted_wrt (<) (keys_inorder (root tree)) \<and> flags_ok (root tree)"
  by (rule registry_run_inv) (simp_all add: avl_create_def)

section \<open>Properties of the sort\<close>

subsection \<open>Permutations within an index range\<close>

lemma swap_Some:
  "0 \<le> n \<Longrightarrow> n < int (length a) \<Longrightarrow> 0 \<le> m \<Longrightarrow> m < int (length a) \<Longrightarrow>
   swap a n m = Some (a[nat n := a ! nat m, nat m := a ! nat n])"
  by (simp add: swap_def)

lemma perm_in_refl: "perm_in a a lo hi"
  by (simp add: perm_in_def)

lemma perm_in_trans: "perm_in a b lo hi \<Longrightarrow> perm_in b c lo hi \<Longrightarrow> perm_in a c lo hi"
  by (simp add: perm_in_def)

lemma perm_in_mono: "perm_in a b lo hi \<Longrightarrow> lo' \<le> lo \<Longrightarrow> hi \<le> hi' \<Longrightarrow> perm_in a b lo' hi'"
  by (auto simp: perm_in_def)

lemma perm_in_length: "perm_in a b lo hi \<Longrightarrow> length b = length a"
  by (simp add: perm_in_def)

lemma perm_in_outside:
  "perm_in a b lo hi \<Longrightarrow> 0 \<le> i \<Longrightarrow> i < int (length a) \<Longrightarrow> i < lo \<or> hi < i \<Longrightarrow>
   b ! nat i = a ! nat i"
  by (simp add: perm_in_def)

lemma perm_in_swap:
  assumes "lo \<le> n" "n \<le> hi" "lo \<le> m" "m \<le> hi" "0 \<le> lo" "hi < int (length a)"
  shows "perm_in a (a[nat n := a ! nat m, nat m := a ! nat n]) lo hi"
proof -
  have "nat n < length a" "nat m < length a" using assms by auto
  then have ms: "mset (a[nat n := a ! nat m, nat m := a ! nat n]) = mset a"
    using mset_swap [of "nat m" a "nat n"] by simp
  show ?thesis unfolding perm_in_def
  proof (intro conjI allI impI)
    show "length (a[nat n := a ! nat m, nat m := a ! nat n]) = length a" by simp
    show "mset (a[nat n := a ! nat m, nat m := a ! nat n]) = mset a" by (rule ms)
    fix i assume "0 \<le> i \<and> i < int (length a) \<and> (i < lo \<or> hi < i)"
    then have "nat i \<noteq> nat n" "nat i \<noteq> nat m" using assms by auto
    then show "a[nat n := a ! nat m, nat m := a ! nat n] ! nat i = a ! nat i" by simp
  qed
qed

lemma mset_middle:
  fixes a b :: "'a list"
  assumes "length b = length a" and "mset b = mset a" and "l \<le> h" and "h \<le> length a"
    and "\<forall>i < length a. i < l \<or> h \<le> i \<longrightarrow> b ! i = a ! i"
  shows "mset (take (h - l) (drop l b)) = mset (take (h - l) (drop l a))"
proof -
  have split: "\<And>xs :: 'a list. xs = take l xs @ take (h - l) (drop l xs) @ drop h xs"
  proof -
    fix xs :: "'a list"
    have "drop l xs = take (h - l) (drop l xs) @ drop (h - l) (drop l xs)"
      by (rule append_take_drop_id [symmetric])
    also have "drop (h - l) (drop l xs) = drop h xs" using assms(3) by simp
    finally have "drop l xs = take (h - l) (drop l xs) @ drop h xs" .
    then have "take l xs @ drop l xs = take l xs @ take (h - l) (drop l xs) @ drop h xs" by simp
    then show "xs = take l xs @ take (h - l) (drop l xs) @ drop h xs" by simp
  qed
  have t: "take l b = take l a"
    using assms(1,3,4,5) by (intro nth_equalityI) auto
  have d: "drop h b = drop h a"
    using assms(1,4,5) by (intro nth_equalityI) auto
  have "mset b = mset (take l b) + mset (take (h - l) (drop l b)) + mset (drop h b)"
    using split [of b] by (metis mset_append add.assoc)
  moreover have "mset a = mset (take l a) + mset (take (h - l) (drop l a)) + mset (drop h a)"
    using split [of a] by (metis mset_append add.assoc)
  ultimately show ?thesis using assms(2) t d by simp
qed

lemma perm_in_range:
  assumes "perm_in a b lo hi" and "0 \<le> lo" and "hi < int (length a)"
    and "\<forall>i. lo \<le> i \<and> i \<le> hi \<longrightarrow> P (a ! nat i)"
    and "lo \<le> j" and "j \<le> hi"
  shows "P (b ! nat j)"
proof -
  let ?l = "nat lo" and ?h = "nat (hi + 1)"
  have len: "length b = length a" and ms: "mset b = mset a" using assms(1) by (simp_all add: perm_in_def)
  have lh: "?l \<le> ?h" "?h \<le> length a" using assms by auto
  have out: "\<forall>i < length a. i < ?l \<or> ?h \<le> i \<longrightarrow> b ! i = a ! i"
  proof (intro allI impI)
    fix i assume "i < length a" "i < ?l \<or> ?h \<le> i"
    then have "0 \<le> int i \<and> int i < int (length a) \<and> (int i < lo \<or> hi < int i)" using assms(2) by auto
    then have "b ! nat (int i) = a ! nat (int i)" using assms(1) unfolding perm_in_def by blast
    then show "b ! i = a ! i" by simp
  qed
  have m: "mset (take (?h - ?l) (drop ?l b)) = mset (take (?h - ?l) (drop ?l a))"
    by (rule mset_middle [OF len ms lh out])
  have jn: "nat j - ?l < ?h - ?l" "?l \<le> nat j" "nat j < length b" using assms len by auto
  have "b ! nat j = take (?h - ?l) (drop ?l b) ! (nat j - ?l)" using jn by simp
  moreover have "nat j - ?l < length (take (?h - ?l) (drop ?l b))" using jn lh len by (simp, linarith)
  ultimately have "b ! nat j \<in> set (take (?h - ?l) (drop ?l b))" by (metis nth_mem)
  then have "b ! nat j \<in> set (take (?h - ?l) (drop ?l a))" using m by (metis set_mset_mset)
  then obtain q where q: "q < length (take (?h - ?l) (drop ?l a))"
    "take (?h - ?l) (drop ?l a) ! q = b ! nat j" by (auto simp: in_set_conv_nth)
  then have q2: "q < ?h - ?l" "a ! (?l + q) = b ! nat j" using lh by auto
  have "lo \<le> int (?l + q) \<and> int (?l + q) \<le> hi" using q2(1) assms(2) by auto
  then have "P (a ! nat (int (?l + q)))" using assms(4) by blast
  then have "P (a ! (?l + q))" by (simp only: nat_int)
  then show ?thesis by (simp only: q2(2))
qed

subsection \<open>Partition\<close>

lemma partition_loop_inv:
  assumes "0 \<le> mn" and "mn \<le> mid" and "mid \<le> i" and "i \<le> mx" and "mx < int (length a)"
    and "\<forall>j. mn \<le> j \<and> j < mid \<longrightarrow> a ! nat j \<le> pv"
    and "\<forall>j. mid \<le> j \<and> j < i \<longrightarrow> pv < a ! nat j"
  shows "\<exists>b m. partition_loop a pv mx i mid = Some (b, m) \<and> perm_in a b mn (mx - 1) \<and>
           mid \<le> m \<and> m \<le> mx \<and>
           (\<forall>j. mn \<le> j \<and> j < m \<longrightarrow> b ! nat j \<le> pv) \<and>
           (\<forall>j. m \<le> j \<and> j < mx \<longrightarrow> pv < b ! nat j)"
  using assms
proof (induction a pv mx i mid rule: partition_loop.induct)
  case (1 a pv mx i mid)
  note p = "1.prems"
  show ?case
  proof (cases "i < mx")
    case False
    then have "i = mx" using p(4) by simp
    then have "partition_loop a pv mx i mid = Some (a, mid)"
      by (subst partition_loop.simps) simp
    then show ?thesis using p \<open>i = mx\<close> by (auto simp: perm_in_refl)
  next
    case True
    have ib: "0 \<le> i" "i < int (length a)" "0 \<le> mid" "mid < int (length a)"
      using p True by auto
    have rdi: "rd a i = Some (a ! nat i)" using ib by simp
    show ?thesis
    proof (cases "a ! nat i \<le> pv")
      case le: True
      let ?a1 = "a[nat i := a ! nat mid, nat mid := a ! nat i]"
      have sw: "swap a i mid = Some ?a1" using ib by (simp add: swap_Some)
      have step: "partition_loop a pv mx i mid = partition_loop ?a1 pv mx (i + 1) (mid + 1)"
        using True rdi le sw by (subst partition_loop.simps) simp
      have len: "mx < int (length ?a1)" using p(5) by simp
      have A: "\<forall>j. mn \<le> j \<and> j < mid + 1 \<longrightarrow> ?a1 ! nat j \<le> pv"
      proof (intro allI impI)
        fix j assume j: "mn \<le> j \<and> j < mid + 1"
        show "?a1 ! nat j \<le> pv"
        proof (cases "j = mid")
          case True
          then show ?thesis using ib le by simp
        next
          case False
          then have "nat j \<noteq> nat mid" "nat j \<noteq> nat i" using j p(1,2,3) by auto
          moreover have "a ! nat j \<le> pv" using p(6) j False by auto
          ultimately show ?thesis by simp
        qed
      qed
      have B: "\<forall>j. mid + 1 \<le> j \<and> j < i + 1 \<longrightarrow> pv < ?a1 ! nat j"
      proof (intro allI impI)
        fix j assume j: "mid + 1 \<le> j \<and> j < i + 1"
        then have nm: "nat j \<noteq> nat mid" using p(1,2) by auto
        show "pv < ?a1 ! nat j"
        proof (cases "j = i")
          case True
          then have "mid < i" using j by simp
          then have "pv < a ! nat mid" using p(7) by auto
          then show ?thesis using True nm ib by simp
        next
          case False
          then have "nat j \<noteq> nat i" using j p(1,2,3) by auto
          moreover have "pv < a ! nat j" using p(7) j False by auto
          ultimately show ?thesis using nm by simp
        qed
      qed
      have b1: "mn \<le> mid + 1" "mid + 1 \<le> i + 1" "i + 1 \<le> mx" using p True by auto
      from "1.IH"(1) [OF True rdi le sw p(1) b1 len A B] obtain b m where
        r: "partition_loop ?a1 pv mx (i + 1) (mid + 1) = Some (b, m)" and
        pm: "perm_in ?a1 b mn (mx - 1)" and
        rest: "mid + 1 \<le> m" "m \<le> mx" "\<forall>j. mn \<le> j \<and> j < m \<longrightarrow> b ! nat j \<le> pv"
          "\<forall>j. m \<le> j \<and> j < mx \<longrightarrow> pv < b ! nat j"
        by blast
      have "perm_in a ?a1 mn (mx - 1)"
        using p True by (intro perm_in_swap) auto
      then have "perm_in a b mn (mx - 1)" using pm by (rule perm_in_trans)
      then show ?thesis using step r rest by auto
    next
      case gt: False
      have step: "partition_loop a pv mx i mid = partition_loop a pv mx (i + 1) mid"
        using True rdi gt by (subst partition_loop.simps) simp
      have B: "\<forall>j. mid \<le> j \<and> j < i + 1 \<longrightarrow> pv < a ! nat j"
      proof (intro allI impI)
        fix j assume j: "mid \<le> j \<and> j < i + 1"
        show "pv < a ! nat j"
        proof (cases "j = i")
          case True
          then show ?thesis using gt by simp
        next
          case False
          then show ?thesis using p(7) j by auto
        qed
      qed
      have b1: "mid \<le> i + 1" "i + 1 \<le> mx" using p True by auto
      from "1.IH"(2) [OF True rdi gt p(1,2) b1 p(5,6) B] step show ?thesis by simp
    qed
  qed
qed

lemma partition_post:
  assumes "0 \<le> mn" and "mn \<le> mx" and "mx < int (length a)" and "mn + mx \<le> INT_MAX"
  shows "\<exists>b m. partition a mn mx = Some (b, m) \<and> perm_in a b mn mx \<and> mn \<le> m \<and> m \<le> mx \<and>
           b ! nat m = a ! nat ((mn + mx) div 2) \<and>
           (\<forall>j. mn \<le> j \<and> j < m \<longrightarrow> b ! nat j \<le> b ! nat m) \<and>
           (\<forall>j. m < j \<and> j \<le> mx \<longrightarrow> b ! nat m < b ! nat j)"
proof -
  define pivot where "pivot = (mn + mx) div 2"
  define pv where "pv = a ! nat pivot"
  have c: "c_int (mn + mx) = Some (mn + mx)"
    using assms by (simp add: c_int_def INT_MIN_def)
  have sd: "(mn + mx) sdiv 2 = pivot" using assms(1,2) by (simp add: pivot_def sdiv2_nonneg)
  have pb: "mn \<le> pivot" "pivot \<le> mx" using assms(1,2) by (auto simp: pivot_def)
  then have pb2: "0 \<le> pivot" "pivot < int (length a)" using assms by auto
  have rdp: "rd a pivot = Some pv" using pb2 by (simp add: pv_def)
  define a1 where "a1 = a[nat pivot := a ! nat mx, nat mx := a ! nat pivot]"
  have sw1: "swap a pivot mx = Some a1" using pb2 assms by (simp add: swap_Some a1_def)
  have p1: "perm_in a a1 mn mx" unfolding a1_def using assms pb by (intro perm_in_swap) auto
  have l1: "length a1 = length a" by (simp add: a1_def)
  have a1mx: "a1 ! nat mx = pv" using assms by (simp add: a1_def pv_def)
  have e1: "\<forall>j. mn \<le> j \<and> j < mn \<longrightarrow> a1 ! nat j \<le> pv"
    and e2: "\<forall>j. mn \<le> j \<and> j < mn \<longrightarrow> pv < a1 ! nat j" by auto
  have lm: "mx < int (length a1)" using assms(3) l1 by simp
  from partition_loop_inv [OF assms(1) order_refl order_refl assms(2) lm e1 e2] obtain a2 m where
    lp: "partition_loop a1 pv mx mn mn = Some (a2, m)" and
    p2: "perm_in a1 a2 mn (mx - 1)" and mb: "mn \<le> m" "m \<le> mx" and
    lo: "\<forall>j. mn \<le> j \<and> j < m \<longrightarrow> a2 ! nat j \<le> pv" and
    hi: "\<forall>j. m \<le> j \<and> j < mx \<longrightarrow> pv < a2 ! nat j"
    by blast
  have l2: "length a2 = length a" using p2 l1 by (simp add: perm_in_def)
  have a2mx: "a2 ! nat mx = pv"
    using perm_in_outside [OF p2, of mx] assms l1 a1mx by simp
  define a3 where "a3 = a2[nat m := a2 ! nat mx, nat mx := a2 ! nat m]"
  have mb2: "0 \<le> m" "m < int (length a2)" "0 \<le> mx" "mx < int (length a2)"
    using mb assms l2 by auto
  have sw2: "swap a2 m mx = Some a3" using mb2 by (simp add: swap_Some a3_def)
  have p3: "perm_in a2 a3 mn mx" unfolding a3_def using assms mb l2 by (intro perm_in_swap) auto
  have res: "partition a mn mx = Some (a3, m)"
    by (simp add: partition_def c sd rdp sw1 lp sw2)
  have pm: "perm_in a a3 mn mx"
    using p1 perm_in_mono [OF p2, of mn mx] p3 l1 by (auto intro: perm_in_trans)
  have a3m: "a3 ! nat m = pv"
  proof (cases "m = mx")
    case True
    then show ?thesis using mb2 a2mx by (simp add: a3_def)
  next
    case False
    then have "nat m \<noteq> nat mx" using mb2 by auto
    then show ?thesis using mb2 a2mx by (simp add: a3_def)
  qed
  have L: "\<forall>j. mn \<le> j \<and> j < m \<longrightarrow> a3 ! nat j \<le> a3 ! nat m"
  proof (intro allI impI)
    fix j assume j: "mn \<le> j \<and> j < m"
    then have "nat j \<noteq> nat m" "nat j \<noteq> nat mx" using assms(1) mb by auto
    then have "a3 ! nat j = a2 ! nat j" by (simp add: a3_def)
    then show "a3 ! nat j \<le> a3 ! nat m" using lo j a3m by simp
  qed
  have H: "\<forall>j. m < j \<and> j \<le> mx \<longrightarrow> a3 ! nat m < a3 ! nat j"
  proof (intro allI impI)
    fix j assume j: "m < j \<and> j \<le> mx"
    then have nm: "nat j \<noteq> nat m" using mb2 by auto
    show "a3 ! nat m < a3 ! nat j"
    proof (cases "j = mx")
      case True
      then have "a3 ! nat j = a2 ! nat m" using mb2 by (simp add: a3_def)
      moreover have "pv < a2 ! nat m" using hi j True by auto
      ultimately show ?thesis using a3m by simp
    next
      case False
      then have "nat j \<noteq> nat mx" using j mb2 by auto
      then have "a3 ! nat j = a2 ! nat j" using nm by (simp add: a3_def)
      moreover have "pv < a2 ! nat j" using hi j False by auto
      ultimately show ?thesis using a3m by simp
    qed
  qed
  show ?thesis using res pm mb a3m L H by (simp add: pv_def pivot_def)
qed

subsection \<open>Insertion sort\<close>

lemma sorted_inD:
  "sorted_in a lo hi \<Longrightarrow> lo \<le> x \<Longrightarrow> x \<le> y \<Longrightarrow> y \<le> hi \<Longrightarrow> a ! nat x \<le> a ! nat y"
  by (simp add: sorted_in_def)

lemma sorted_inI:
  assumes "\<And>x y. lo \<le> x \<Longrightarrow> x < y \<Longrightarrow> y \<le> hi \<Longrightarrow> a ! nat x \<le> a ! nat y"
  shows "sorted_in a lo hi"
  unfolding sorted_in_def
proof (intro allI impI)
  fix i j assume ij: "lo \<le> i \<and> i \<le> j \<and> j \<le> hi"
  show "a ! nat i \<le> a ! nat j"
  proof (cases "i = j")
    case True
    then show ?thesis by simp
  next
    case False
    then show ?thesis using ij assms [of i j] by simp
  qed
qed

lemma swap_nth:
  assumes "0 \<le> n" and "0 \<le> m" and "n < int (length a)" and "m < int (length a)" and "0 \<le> k"
  shows "a[nat n := a ! nat m, nat m := a ! nat n] ! nat k =
           (if k = m then a ! nat n else if k = n then a ! nat m else a ! nat k)"
proof -
  have "nat k = nat m \<longleftrightarrow> k = m" "nat k = nat n \<longleftrightarrow> k = n" using assms by auto
  then show ?thesis using assms by (auto simp: nth_list_update)
qed

lemma insertion_inner_inv:
  assumes "0 \<le> mn" and "mn \<le> j" and "j \<le> i" and "i < int (length a)"
    and "sorted_in a mn (j - 1)" and "sorted_in a j i"
    and "\<forall>x y. mn \<le> x \<and> x < j \<and> j < y \<and> y \<le> i \<longrightarrow> a ! nat x \<le> a ! nat y"
  shows "\<exists>b. insertion_inner a mn j = Some b \<and> perm_in a b mn i \<and> sorted_in b mn i"
  using assms
proof (induction a mn j rule: insertion_inner.induct)
  case (1 a mn j)
  note p = "1.prems"
  have cross: "\<And>x y. mn \<le> x \<Longrightarrow> x < j \<Longrightarrow> j < y \<Longrightarrow> y \<le> i \<Longrightarrow> a ! nat x \<le> a ! nat y"
    using p(7) by blast
  have stop: "sorted_in a mn i" if st: "j \<le> mn \<or> a ! nat (j - 1) \<le> a ! nat j"
  proof (rule sorted_inI)
    fix x y assume xy: "mn \<le> x" "x < y" "y \<le> i"
    consider (lo) "y < j" | (hi) "j \<le> x" | (mid) "x < j" "y = j" | (far) "x < j" "j < y"
      by linarith
    then show "a ! nat x \<le> a ! nat y"
    proof cases
      case lo
      then show ?thesis using sorted_inD [OF p(5), of x y] xy by simp
    next
      case hi
      then show ?thesis using sorted_inD [OF p(6), of x y] xy by simp
    next
      case mid
      then have "mn < j" using xy by simp
      then have "a ! nat (j - 1) \<le> a ! nat j" using st by auto
      moreover have "a ! nat x \<le> a ! nat (j - 1)"
        using sorted_inD [OF p(5), of x "j - 1"] xy mid by simp
      ultimately show ?thesis using mid by simp
    next
      case far
      then show ?thesis using cross [of x y] xy by simp
    qed
  qed
  show ?case
  proof (cases "mn < j")
    case False
    then have "insertion_inner a mn j = Some a" by (subst insertion_inner.simps) simp
    moreover have "sorted_in a mn i" using False by (intro stop) simp
    ultimately show ?thesis by (simp add: perm_in_refl)
  next
    case True
    have jb: "0 \<le> j - 1" "j - 1 < int (length a)" "0 \<le> j" "j < int (length a)"
      using p True by auto
    have r1: "rd a (j - 1) = Some (a ! nat (j - 1))" and r2: "rd a j = Some (a ! nat j)"
      using jb by simp_all
    show ?thesis
    proof (cases "a ! nat j < a ! nat (j - 1)")
      case False
      then have "insertion_inner a mn j = Some a"
        using True r1 r2 by (subst insertion_inner.simps) simp
      moreover have "sorted_in a mn i" using False by (intro stop) (simp add: not_less)
      ultimately show ?thesis by (simp add: perm_in_refl)
    next
      case sw: True
      define a1 where "a1 = a[nat j := a ! nat (j - 1), nat (j - 1) := a ! nat j]"
      have s: "swap a j (j - 1) = Some a1" using jb by (simp add: swap_Some a1_def)
      have step: "insertion_inner a mn j = insertion_inner a1 mn (j - 1)"
        using True r1 r2 sw s by (subst insertion_inner.simps) simp
      have nth1: "\<And>k. 0 \<le> k \<Longrightarrow> a1 ! nat k =
          (if k = j - 1 then a ! nat j else if k = j then a ! nat (j - 1) else a ! nat k)"
        unfolding a1_def using swap_nth [of j "j - 1" a] jb by simp
      have l1: "length a1 = length a" by (simp add: a1_def)
      have A: "sorted_in a1 mn (j - 1 - 1)"
      proof (rule sorted_inI)
        fix x y assume xy: "mn \<le> x" "x < y" "y \<le> j - 1 - 1"
        then have "a1 ! nat x = a ! nat x" "a1 ! nat y = a ! nat y" using nth1 p(1) by auto
        then show "a1 ! nat x \<le> a1 ! nat y" using sorted_inD [OF p(5), of x y] xy by simp
      qed
      have B: "sorted_in a1 (j - 1) i"
      proof (rule sorted_inI)
        fix x y assume xy: "j - 1 \<le> x" "x < y" "y \<le> i"
        have x0: "0 \<le> x" "0 \<le> y" using xy jb by auto
        consider (a) "x = j - 1" "y = j" | (b) "x = j - 1" "j < y" | (c) "x = j" | (d) "j < x"
          using xy by linarith
        then show "a1 ! nat x \<le> a1 ! nat y"
        proof cases
          case a
          then show ?thesis using nth1 x0 sw by simp
        next
          case b
          then have "a1 ! nat x = a ! nat j" "a1 ! nat y = a ! nat y" using nth1 x0 by auto
          then show ?thesis using sorted_inD [OF p(6), of j y] b xy by simp
        next
          case c
          then have "a1 ! nat x = a ! nat (j - 1)" "a1 ! nat y = a ! nat y" using nth1 x0 xy by auto
          then show ?thesis using cross [of "j - 1" y] c xy True by simp
        next
          case d
          then have "a1 ! nat x = a ! nat x" "a1 ! nat y = a ! nat y" using nth1 x0 xy by auto
          then show ?thesis using sorted_inD [OF p(6), of x y] d xy by simp
        qed
      qed
      have C: "\<forall>x y. mn \<le> x \<and> x < j - 1 \<and> j - 1 < y \<and> y \<le> i \<longrightarrow> a1 ! nat x \<le> a1 ! nat y"
      proof (intro allI impI)
        fix x y assume xy: "mn \<le> x \<and> x < j - 1 \<and> j - 1 < y \<and> y \<le> i"
        then have ax: "a1 ! nat x = a ! nat x" using nth1 p(1) by auto
        show "a1 ! nat x \<le> a1 ! nat y"
        proof (cases "y = j")
          case True
          then have "a1 ! nat y = a ! nat (j - 1)" using nth1 jb by simp
          then show ?thesis using ax sorted_inD [OF p(5), of x "j - 1"] xy by simp
        next
          case False
          then have "a1 ! nat y = a ! nat y" using nth1 xy jb by auto
          then show ?thesis using ax cross [of x y] xy False by simp
        qed
      qed
      have b1: "mn \<le> j - 1" "j - 1 \<le> i" "i < int (length a1)" using True p l1 by auto
      from "1.IH" [OF True r1 r2 sw s p(1) b1 A B C] obtain b where
        r: "insertion_inner a1 mn (j - 1) = Some b" and pb: "perm_in a1 b mn i"
        and sb: "sorted_in b mn i" by blast
      have "perm_in a a1 mn i" unfolding a1_def using p True by (intro perm_in_swap) auto
      then have "perm_in a b mn i" using pb by (rule perm_in_trans)
      then show ?thesis using step r sb by simp
    qed
  qed
qed

lemma insertion_outer_inv:
  assumes "0 \<le> mn" and "mn < i" and "i \<le> mx + 1" and "mx < int (length a)"
    and "sorted_in a mn (i - 1)"
  shows "\<exists>b. insertion_outer a mn mx i = Some b \<and> perm_in a b mn mx \<and> sorted_in b mn mx"
  using assms
proof (induction a mn mx i rule: insertion_outer.induct)
  case (1 a mn mx i)
  note p = "1.prems"
  show ?case
  proof (cases "i \<le> mx")
    case False
    then have "i - 1 = mx" using p(3) by simp
    moreover have "insertion_outer a mn mx i = Some a" using False
      by (subst insertion_outer.simps) simp
    ultimately show ?thesis using p(5) by (simp add: perm_in_refl)
  next
    case True
    have t: "sorted_in a i i" by (rule sorted_inI) simp
    have c: "\<forall>x y. mn \<le> x \<and> x < i \<and> i < y \<and> y \<le> i \<longrightarrow> a ! nat x \<le> a ! nat y" by simp
    have ib: "mn \<le> i" "i \<le> i" "i < int (length a)" using p True by auto
    from insertion_inner_inv [OF p(1) ib p(5) t c] obtain a1 where
      r1: "insertion_inner a mn i = Some a1" and p1: "perm_in a a1 mn i"
      and s1: "sorted_in a1 mn i" by blast
    have l1: "length a1 = length a" using p1 by (rule perm_in_length)
    have b: "mn < i + 1" "i + 1 \<le> mx + 1" "mx < int (length a1)" "sorted_in a1 mn (i + 1 - 1)"
      using p True l1 s1 by auto
    from "1.IH" [OF True r1 p(1) b] obtain b where
      r: "insertion_outer a1 mn mx (i + 1) = Some b" and pb: "perm_in a1 b mn mx"
      and sb: "sorted_in b mn mx" by blast
    have "perm_in a a1 mn mx" using p1 True by (intro perm_in_mono [OF p1]) auto
    then have "perm_in a b mn mx" using pb by (rule perm_in_trans)
    moreover have "insertion_outer a mn mx i = Some b"
      using True r1 r by (subst insertion_outer.simps) simp
    ultimately show ?thesis using sb by simp
  qed
qed

lemma insertion_sort_post:
  assumes "0 \<le> mn" and "mn < INT_MAX" and "mx < int (length a)"
  shows "\<exists>b. insertion_sort a mn mx = Some b \<and> perm_in a b mn mx \<and> sorted_in b mn mx"
proof -
  have c: "c_int (mn + 1) = Some (mn + 1)"
    using assms(1,2) by (simp add: c_int_def INT_MIN_def)
  show ?thesis
  proof (cases "mn \<le> mx")
    case True
    have s: "sorted_in a mn (mn + 1 - 1)" by (rule sorted_inI) simp
    have "mn < mn + 1" "mn + 1 \<le> mx + 1" using True by auto
    from insertion_outer_inv [OF assms(1) this assms(3) s] c show ?thesis
      by (simp add: insertion_sort_def)
  next
    case False
    then have "insertion_outer a mn mx (mn + 1) = Some a"
      by (subst insertion_outer.simps) simp
    moreover have "sorted_in a mn mx" using False by (intro sorted_inI) simp
    ultimately show ?thesis using c by (simp add: insertion_sort_def perm_in_refl)
  qed
qed

subsection \<open>Quicksort below the overflow bound\<close>

text \<open>\<^verbatim>\<open>partition\<close> is called on ranges with \<open>max - min > 16\<close> only, so up to
  \<open>max = 2^30 + 8\<close> the sum \<open>min + max\<close> stays within \<^verbatim>\<open>int\<close>.\<close>

lemma quicksort_post:
  assumes "0 \<le> mn" and "mn \<le> mx + 1" and "mx < int (length a)" and "mx \<le> 1073741832"
  shows "\<exists>b. quicksort a mn mx = Some b \<and> perm_in a b mn mx \<and> sorted_in b mn mx"
  using assms
proof (induction a mn mx rule: quicksort.induct)
  case (1 a mn mx)
  note p = "1.prems"
  show ?case
  proof (cases "SORT_THRESHOLD < mx - mn")
    case False
    have "mn < INT_MAX" using p(2,4) by (simp add: INT_MAX_def)
    from insertion_sort_post [OF p(1) this p(3)] False show ?thesis
      by (subst quicksort.simps) simp
  next
    case True
    then have lt: "mn \<le> mx" and sum: "mn + mx \<le> INT_MAX"
      using p(4) by (simp_all add: SORT_THRESHOLD_def INT_MAX_def)
    from partition_post [OF p(1) lt p(3) sum] obtain a1 mid where
      part: "partition a mn mx = Some (a1, mid)" and p1: "perm_in a a1 mn mx"
      and mb: "mn \<le> mid" "mid \<le> mx"
      and lo1: "\<forall>j. mn \<le> j \<and> j < mid \<longrightarrow> a1 ! nat j \<le> a1 ! nat mid"
      and hi1: "\<forall>j. mid < j \<and> j \<le> mx \<longrightarrow> a1 ! nat mid < a1 ! nat j"
      by blast
    define pv where "pv = a1 ! nat mid"
    have l1: "length a1 = length a" using p1 by (rule perm_in_length)
    have b1: "mn \<le> mid - 1 + 1" "mid - 1 < int (length a1)" "mid - 1 \<le> 1073741832"
      using mb p l1 by auto
    from "1.IH"(1) [OF True part refl p(1) b1] obtain a2 where
      q1: "quicksort a1 mn (mid - 1) = Some a2" and p2: "perm_in a1 a2 mn (mid - 1)"
      and s2: "sorted_in a2 mn (mid - 1)" by blast
    have l2: "length a2 = length a" using p2 l1 by (simp add: perm_in_def)
    have b2: "0 \<le> mid + 1" "mid + 1 \<le> mx + 1" "mx < int (length a2)"
      using mb p l2 by auto
    from "1.IH"(2) [OF True part refl q1 b2 p(4)] obtain a3 where
      q2: "quicksort a2 (mid + 1) mx = Some a3" and p3: "perm_in a2 a3 (mid + 1) mx"
      and s3: "sorted_in a3 (mid + 1) mx" by blast
    have res: "quicksort a mn mx = Some a3"
      using True part q1 q2 by (subst quicksort.simps) simp
    have pm: "perm_in a a3 mn mx"
    proof -
      have "perm_in a1 a2 mn mx" using mb by (intro perm_in_mono [OF p2]) auto
      moreover have "perm_in a2 a3 mn mx" using mb by (intro perm_in_mono [OF p3]) auto
      ultimately show ?thesis using p1 by (blast intro: perm_in_trans)
    qed
    have m0: "0 \<le> mid" "mid < int (length a1)" "mid < int (length a2)"
      using mb p l1 l2 by auto
    have a2mid: "a2 ! nat mid = pv"
      using perm_in_outside [OF p2, of mid] m0 by (simp add: pv_def)
    have a3mid: "a3 ! nat mid = pv"
      using perm_in_outside [OF p3, of mid] m0 a2mid by simp
    have lo2: "\<And>j. mn \<le> j \<Longrightarrow> j \<le> mid - 1 \<Longrightarrow> a2 ! nat j \<le> pv"
    proof -
      fix j assume j: "mn \<le> j" "j \<le> mid - 1"
      have "\<forall>i. mn \<le> i \<and> i \<le> mid - 1 \<longrightarrow> a1 ! nat i \<le> pv" using lo1 by (simp add: pv_def)
      from perm_in_range [OF p2 p(1) b1(2) this j] show "a2 ! nat j \<le> pv" .
    qed
    have same3: "\<And>j. 0 \<le> j \<Longrightarrow> j \<le> mid \<Longrightarrow> a3 ! nat j = a2 ! nat j"
      using perm_in_outside [OF p3] m0 by simp
    have hi2: "\<forall>i. mid + 1 \<le> i \<and> i \<le> mx \<longrightarrow> pv < a2 ! nat i"
    proof (intro allI impI)
      fix i assume i: "mid + 1 \<le> i \<and> i \<le> mx"
      then have "a2 ! nat i = a1 ! nat i"
        using perm_in_outside [OF p2, of i] p(3) l1 mb p(1) by simp
      then show "pv < a2 ! nat i" using hi1 i by (simp add: pv_def)
    qed
    have hi3: "\<And>j. mid + 1 \<le> j \<Longrightarrow> j \<le> mx \<Longrightarrow> pv < a3 ! nat j"
    proof -
      fix j assume j: "mid + 1 \<le> j" "j \<le> mx"
      from perm_in_range [OF p3 b2(1,3) hi2 j] show "pv < a3 ! nat j" .
    qed
    have srt: "sorted_in a3 mn mx"
    proof (rule sorted_inI)
      fix x y assume xy: "mn \<le> x" "x < y" "y \<le> mx"
      have x0: "0 \<le> x" "0 \<le> y" using xy p(1) by auto
      consider (l) "y < mid" | (r) "mid < x" | (lm) "x < mid" "y = mid" | (mr) "x = mid"
        | (lr) "x < mid" "mid < y" by linarith
      then show "a3 ! nat x \<le> a3 ! nat y"
      proof cases
        case l
        then have "a3 ! nat x = a2 ! nat x" "a3 ! nat y = a2 ! nat y" using same3 x0 xy by auto
        then show ?thesis using sorted_inD [OF s2, of x y] xy l by simp
      next
        case r
        then show ?thesis using sorted_inD [OF s3, of x y] xy by simp
      next
        case lm
        then have "a3 ! nat x = a2 ! nat x" using same3 x0 by auto
        then show ?thesis using lo2 [of x] xy lm a3mid by simp
      next
        case mr
        then show ?thesis using hi3 [of y] xy a3mid by simp
      next
        case lr
        then have "a3 ! nat x = a2 ! nat x" using same3 x0 by auto
        then have "a3 ! nat x \<le> pv" using lo2 [of x] xy lr by simp
        moreover have "pv < a3 ! nat y" using hi3 [of y] xy lr by simp
        ultimately show ?thesis by simp
      qed
    qed
    show ?thesis using res pm srt by simp
  qed
qed

text \<open>For lengths up to \<open>2^30 + 9\<close>, \<^verbatim>\<open>forkscan_util_sort\<close> returns, the first \<open>n\<close> cells
  are a permutation of the original first \<open>n\<close> cells in non-decreasing order, and the
  cells from \<open>n\<close> on are untouched.\<close>

lemma forkscan_util_sort_bounded:
  assumes "0 \<le> n" and "n \<le> int (length a)" and "n \<le> 1073741833"
  shows "\<exists>b. forkscan_util_sort a n = Some b \<and> length b = length a \<and>
           mset (take (nat n) b) = mset (take (nat n) a) \<and>
           sorted (take (nat n) b) \<and>
           drop (nat n) b = drop (nat n) a"
proof -
  have c: "c_int (n - 1) = Some (n - 1)"
    using assms(1,3) by (simp add: c_int_def INT_MIN_def INT_MAX_def)
  have "(0::int) \<le> 0" "0 \<le> n - 1 + 1" "n - 1 < int (length a)" "n - 1 \<le> 1073741832"
    using assms by auto
  from quicksort_post [OF this] obtain b where
    q: "quicksort a 0 (n - 1) = Some b" and pm: "perm_in a b 0 (n - 1)"
    and s: "sorted_in b 0 (n - 1)" by blast
  have len: "length b = length a" and ms: "mset b = mset a"
    using pm by (simp_all add: perm_in_def)
  have out: "\<forall>i < length a. i < 0 \<or> nat n \<le> i \<longrightarrow> b ! i = a ! i"
  proof (intro allI impI)
    fix i assume "i < length a" "i < 0 \<or> nat n \<le> i"
    then have "b ! nat (int i) = a ! nat (int i)"
      using assms(1) by (intro perm_in_outside [OF pm]) auto
    then show "b ! i = a ! i" by simp
  qed
  have nl: "nat n \<le> length a" using assms by auto
  have "mset (take (nat n - 0) (drop 0 b)) = mset (take (nat n - 0) (drop 0 a))"
    using mset_middle [OF len ms _ nl out] by simp
  then have m: "mset (take (nat n) b) = mset (take (nat n) a)" by simp
  have d: "drop (nat n) b = drop (nat n) a"
    using len out by (intro nth_equalityI) auto
  have "sorted (take (nat n) b)"
    unfolding sorted_iff_nth_mono
  proof (intro allI impI)
    fix i j assume ij: "i \<le> j" "j < length (take (nat n) b)"
    then have "j < nat n" by simp
    then have "b ! nat (int i) \<le> b ! nat (int j)"
      using ij by (intro sorted_inD [OF s]) auto
    then show "take (nat n) b ! i \<le> take (nat n) b ! j" using ij by simp
  qed
  then show ?thesis using c q len m d by (simp add: forkscan_util_sort_def)
qed

subsection \<open>Quicksort above the overflow bound\<close>

lemma partition_loop_skip:
  assumes "0 \<le> i" and "mx \<le> int (length a)"
    and "\<forall>j. i \<le> j \<and> j < mx \<longrightarrow> pv < a ! nat j"
  shows "partition_loop a pv mx i mid = Some (a, mid)"
  using assms
proof (induction a pv mx i mid rule: partition_loop.induct)
  case (1 a pv mx i mid)
  note p = "1.prems"
  show ?case
  proof (cases "i < mx")
    case False
    then show ?thesis by (subst partition_loop.simps) simp
  next
    case True
    have rdi: "rd a i = Some (a ! nat i)" using p True by simp
    have gt: "\<not> a ! nat i \<le> pv" using p(3) True by (auto simp: not_le)
    have "partition_loop a pv mx i mid = partition_loop a pv mx (i + 1) mid"
      using True rdi gt by (subst partition_loop.simps) simp
    moreover have "partition_loop a pv mx (i + 1) mid = Some (a, mid)"
      using p by (intro "1.IH"(2) [OF True rdi gt]) auto
    ultimately show ?thesis by simp
  qed
qed

text \<open>With \<open>2^31 - 1\<close> cells of which only cell 0 is not above the first pivot, the first
  \<^verbatim>\<open>partition\<close> returns 1, and the next call is \<^verbatim>\<open>partition(addrs, 2, 2147483646)\<close>, whose
  \<^verbatim>\<open>min + max\<close> is \<open>2^31\<close>.\<close>

lemma sort_overflow:
  assumes len: "length a = 2147483647"
    and first: "a ! 0 \<le> a ! 1073741823"
    and rest: "\<forall>j. 0 < j \<and> j < 2147483647 \<and> j \<noteq> 1073741823 \<longrightarrow> a ! 1073741823 < a ! j"
  shows "forkscan_util_sort a 2147483647 = None"
proof -
  define mx :: int where "mx = 2147483646"
  define pivot :: int where "pivot = 1073741823"
  define pv where "pv = a ! nat pivot"
  define a1 where "a1 = a[nat pivot := a ! nat mx, nat mx := a ! nat pivot]"
  define a3 where "a3 = a1[nat 1 := a1 ! nat mx, nat mx := a1 ! nat 1]"
  have l: "int (length a) = 2147483647" using len by simp
  have l1: "int (length a1) = 2147483647" using len by (simp add: a1_def)
  have l3: "int (length a3) = 2147483647" using len by (simp add: a3_def a1_def)
  have c0: "c_int (0 + mx) = Some mx"
    by (simp add: c_int_def INT_MIN_def INT_MAX_def mx_def)
  have sd: "mx sdiv 2 = pivot" by (simp add: mx_def pivot_def sdiv2_nonneg)
  have rdp: "rd a pivot = Some pv" using l by (simp add: pv_def pivot_def)
  have sw1: "swap a pivot mx = Some a1"
    using l by (simp add: swap_Some a1_def pivot_def mx_def)
  have nth1: "\<And>k. 0 \<le> k \<Longrightarrow> a1 ! nat k =
      (if k = mx then a ! nat pivot else if k = pivot then a ! nat mx else a ! nat k)"
    unfolding a1_def using swap_nth [of pivot mx a] l by (simp add: pivot_def mx_def)
  have a10: "a1 ! nat 0 \<le> pv"
    using nth1 [of 0] first by (simp add: pv_def pivot_def mx_def)
  have big: "\<forall>j. 1 \<le> j \<and> j < mx \<longrightarrow> pv < a1 ! nat j"
  proof (intro allI impI)
    fix j :: int assume j: "1 \<le> j \<and> j < mx"
    have r: "\<And>k. 0 < k \<Longrightarrow> k < 2147483647 \<Longrightarrow> k \<noteq> 1073741823 \<Longrightarrow> pv < a ! k"
      using rest by (simp add: pv_def pivot_def)
    show "pv < a1 ! nat j"
    proof (cases "j = pivot")
      case True
      then have "a1 ! nat j = a ! nat mx" using nth1 [of j] j by (simp add: mx_def pivot_def)
      moreover have "pv < a ! nat mx" by (rule r) (simp_all add: mx_def)
      ultimately show ?thesis by simp
    next
      case False
      then have "a1 ! nat j = a ! nat j" using nth1 [of j] j by simp
      moreover have "pv < a ! nat j" using j False by (intro r) (auto simp: mx_def pivot_def)
      ultimately show ?thesis by simp
    qed
  qed
  have rd0: "rd a1 0 = Some (a1 ! nat 0)" using l1 by simp
  have sw0: "swap a1 0 0 = Some a1" using l1 by (simp add: swap_Some)
  have skip: "partition_loop a1 pv mx (0 + 1) (0 + 1) = Some (a1, 1)"
    using partition_loop_skip [of 1 mx a1 pv 1] big l1 by (simp add: mx_def)
  have loop: "partition_loop a1 pv mx 0 0 = Some (a1, 1)"
    using rd0 a10 sw0 skip by (subst partition_loop.simps) (simp add: mx_def)
  have sw2: "swap a1 1 mx = Some a3" using l1 by (simp add: swap_Some a3_def mx_def)
  have part: "partition a 0 mx = Some (a3, 1)"
    using c0 sd rdp sw1 loop sw2 by (simp add: partition_def)
  have ins: "quicksort a3 0 (1 - 1) = Some a3"
    by (subst quicksort.simps)
       (simp add: SORT_THRESHOLD_def insertion_sort_def c_int_def INT_MIN_def INT_MAX_def
          insertion_outer.simps [of a3 0 0 1])
  have ov: "partition a3 (1 + 1) mx = None"
    by (simp add: partition_def c_int_def INT_MAX_def mx_def)
  have hi: "quicksort a3 (1 + 1) mx = None"
    using ov by (subst quicksort.simps) (simp add: SORT_THRESHOLD_def mx_def)
  have "quicksort a 0 mx = None"
    using part ins hi by (subst quicksort.simps) (simp add: SORT_THRESHOLD_def mx_def)
  moreover have "c_int (2147483647 - 1) = Some mx"
    by (simp add: c_int_def INT_MIN_def INT_MAX_def mx_def)
  ultimately show ?thesis by (simp add: forkscan_util_sort_def)
qed

lemma overflow_keys_nth:
  "k < 2147483647 \<Longrightarrow>
   overflow_keys ! k = of_nat (if k = 1 then 1073741823 else if k = 1073741823 then 1 else k)"
  by (simp add: overflow_keys_def)

lemma overflow_keys_sort: "forkscan_util_sort overflow_keys 2147483647 = None"
proof (rule sort_overflow)
  show "length overflow_keys = 2147483647" by (simp add: overflow_keys_def)
  show "overflow_keys ! 0 \<le> overflow_keys ! 1073741823"
    by (simp add: overflow_keys_nth)
  show "\<forall>j. 0 < j \<and> j < 2147483647 \<and> j \<noteq> 1073741823 \<longrightarrow>
          overflow_keys ! 1073741823 < overflow_keys ! j"
  proof (intro allI impI)
    fix j :: nat assume j: "0 < j \<and> j < 2147483647 \<and> j \<noteq> 1073741823"
    have one: "overflow_keys ! 1073741823 = 1" by (simp add: overflow_keys_nth)
    have gt: "\<And>m. 1 < m \<Longrightarrow> m < 2147483647 \<Longrightarrow> (1 :: size_t) < of_nat m"
    proof -
      fix m :: nat assume m: "1 < m" "m < 2147483647"
      then have "unat (of_nat m :: size_t) = m" by (simp add: unat_of_nat)
      then show "(1 :: size_t) < of_nat m" using m by (simp add: word_less_nat_alt)
    qed
    show "overflow_keys ! 1073741823 < overflow_keys ! j"
    proof (cases "j = 1")
      case True
      then show ?thesis unfolding one using gt [of 1073741823] by (simp add: overflow_keys_nth)
    next
      case False
      then show ?thesis unfolding one using gt [of j] j by (simp add: overflow_keys_nth)
    qed
  qed
qed

lemma overflow_keys_distinct: "distinct overflow_keys"
proof -
  let ?g = "\<lambda>i::nat. if i = 1 then 1073741823 else if i = 1073741823 then 1 else i"
  have "inj_on (\<lambda>i. (of_nat (?g i) :: size_t)) {0..<2147483647}"
  proof (rule inj_onI)
    fix x y :: nat
    assume "x \<in> {0..<2147483647}" and "y \<in> {0..<2147483647}"
      and e: "(of_nat (?g x) :: size_t) = of_nat (?g y)"
    then have x: "x < 2147483647" and y: "y < 2147483647" by simp_all
    have "?g x < 2 ^ LENGTH(64)" "?g y < 2 ^ LENGTH(64)" using x y by auto
    then have "take_bit LENGTH(64) (?g x) = ?g x" "take_bit LENGTH(64) (?g y) = ?g y"
      by (simp_all only: take_bit_nat_eq_self)
    moreover have "take_bit LENGTH(64) (?g x) = take_bit LENGTH(64) (?g y)"
      using e by (simp only: word_of_nat_eq_iff)
    ultimately have "?g x = ?g y" by simp
    then show "x = y"
      by (cases "x = 1"; cases "x = 1073741823"; cases "y = 1"; cases "y = 1073741823"; simp)
  qed
  then have "inj_on (\<lambda>i. (of_nat (?g i) :: size_t)) (set [0..<2147483647])"
    by (simp only: set_upt)
  then show ?thesis
    unfolding overflow_keys_def by (simp only: distinct_map distinct_upt simp_thms)
qed

text \<open>
  Claim C1 says that \<^verbatim>\<open>forkscan_util_sort(a, n)\<close> leaves a sorted permutation for every
  array and every \<open>n \<ge> 0\<close>. On the \<open>2^31 - 1\<close> keys of \<open>overflow_keys\<close> the second call of
  \<^verbatim>\<open>partition\<close> computes \<^verbatim>\<open>(min + max) / 2\<close> with \<open>min + max = 2^31\<close>, a signed overflow:
  the sort has no defined result. (\<open>forkscan_util_sort_bounded\<close> is the claim for
  \<open>n \<le> 2^30 + 9\<close>; \<^verbatim>\<open>binary_search_mark\<close> computes its midpoint as
  \<^verbatim>\<open>low + (high - low) / 2\<close>, which cannot overflow.)
\<close>

theorem forkscan_util_sort_overflow:
  "length overflow_keys = 2147483647 \<and> forkscan_util_sort overflow_keys 2147483647 = None"
proof
  show "length overflow_keys = 2147483647"
    unfolding overflow_keys_def by (simp only: length_map length_upt)
  show "forkscan_util_sort overflow_keys 2147483647 = None" by (rule overflow_keys_sort)
qed

subsection \<open>The threshold between the two routines\<close>

lemma rd_SomeD: "rd a i = Some v \<Longrightarrow> 0 \<le> i \<and> i < int (length a) \<and> v = a ! nat i"
  by (auto simp: rd_def split: if_splits)

lemma swap_SomeD:
  "swap a n m = Some b \<Longrightarrow>
   0 \<le> n \<and> n < int (length a) \<and> 0 \<le> m \<and> m < int (length a) \<and> length b = length a"
  by (auto simp: swap_def rd_def wr_def split: bind_splits if_splits)

lemma partition_loop_SomeD:
  "partition_loop a pv mx i mid = Some r \<Longrightarrow> i < mx \<Longrightarrow> 0 \<le> i"
  by (subst (asm) partition_loop.simps) (auto dest: rd_SomeD split: bind_splits)

lemma partition_SomeD:
  assumes "partition a mn mx = Some (b, m)" and "mn < mx"
  shows "0 \<le> mn \<and> mx < int (length a) \<and> mn + mx \<le> INT_MAX"
proof -
  from assms(1) obtain s pv a1 r where
    c: "c_int (mn + mx) = Some s" and sw: "swap a (s sdiv 2) mx = Some a1"
    and lp: "partition_loop a1 pv mx mn mn = Some r"
    unfolding partition_def Let_def by (auto simp: bind_eq_Some_conv)
  from c have "mn + mx \<le> INT_MAX" by (simp add: c_int_def split: if_splits)
  moreover from sw have "mx < int (length a)" by (auto dest: swap_SomeD)
  moreover from lp assms(2) have "0 \<le> mn" by (rule partition_loop_SomeD)
  ultimately show ?thesis by simp
qed

lemma partition_pivot:
  assumes "partition a mn mx = Some (b, m)" and "mn < mx"
  shows "b ! nat m = a ! nat ((mn + mx) div 2) \<and> mn \<le> m \<and> m \<le> mx \<and>
         (\<forall>j. mn \<le> j \<and> j < m \<longrightarrow> b ! nat j \<le> b ! nat m) \<and>
         (\<forall>j. m < j \<and> j \<le> mx \<longrightarrow> b ! nat m < b ! nat j)"
proof -
  from partition_SomeD [OF assms] have
    b: "0 \<le> mn" "mx < int (length a)" "mn + mx \<le> INT_MAX" by simp_all
  have "mn \<le> mx" using assms(2) by simp
  from partition_post [OF b(1) this b(2,3)] assms(1) show ?thesis by auto
qed

lemma quicksort_trace_fst:
  "map_option fst (quicksort_trace a mn mx) = quicksort a mn mx"
proof (induction a mn mx rule: quicksort_trace.induct)
  case (1 a mn mx)
  show ?case
  proof (cases "SORT_THRESHOLD < mx - mn")
    case False
    then show ?thesis
      by (subst quicksort_trace.simps, subst quicksort.simps)
         (cases "insertion_sort a mn mx"; simp)
  next
    case True
    show ?thesis
    proof (cases "partition a mn mx")
      case None
      then show ?thesis using True
        by (subst quicksort_trace.simps, subst quicksort.simps) simp
    next
      case (Some x)
      obtain a1 mid where x: "x = (a1, mid)" by (cases x)
      have part: "partition a mn mx = Some (a1, mid)" using Some x by simp
      have ih1: "map_option fst (quicksort_trace a1 mn (mid - 1)) = quicksort a1 mn (mid - 1)"
        by (rule "1.IH"(1) [OF True part refl])
      show ?thesis
      proof (cases "quicksort_trace a1 mn (mid - 1)")
        case None
        then have "quicksort a1 mn (mid - 1) = None" using ih1 by simp
        then show ?thesis using True part None
          by (subst quicksort_trace.simps, subst quicksort.simps) simp
      next
        case (Some y)
        obtain a2 t1 where y: "y = (a2, t1)" by (cases y)
        have q1: "quicksort_trace a1 mn (mid - 1) = Some (a2, t1)" using Some y by simp
        then have q1': "quicksort a1 mn (mid - 1) = Some a2" using ih1 by simp
        have ih2: "map_option fst (quicksort_trace a2 (mid + 1) mx) = quicksort a2 (mid + 1) mx"
          by (rule "1.IH"(2) [OF True part refl q1 refl])
        show ?thesis
        proof (cases "quicksort_trace a2 (mid + 1) mx")
          case None
          then have "quicksort a2 (mid + 1) mx = None" using ih2 by simp
          then show ?thesis using True part q1 q1' None
            by (subst quicksort_trace.simps, subst quicksort.simps) simp
        next
          case (Some z)
          obtain a3 t2 where z: "z = (a3, t2)" by (cases z)
          have q2: "quicksort_trace a2 (mid + 1) mx = Some (a3, t2)" using Some z by simp
          then have "quicksort a2 (mid + 1) mx = Some a3" using ih2 by simp
          then show ?thesis using True part q1 q1' q2
            by (subst quicksort_trace.simps, subst quicksort.simps) simp
        qed
      qed
    qed
  qed
qed

lemma quicksort_trace_sizes:
  "quicksort_trace a mn mx = Some (b, tr) \<Longrightarrow>
   \<forall>c \<in> set tr. if by_partition c then 17 < range_size c else range_size c \<le> 17"
proof (induction a mn mx arbitrary: b tr rule: quicksort_trace.induct)
  case (1 a mn mx)
  show ?case
  proof (cases "SORT_THRESHOLD < mx - mn")
    case False
    then have "tr = [Insertion_call mn mx]" using "1.prems"
      by (subst (asm) quicksort_trace.simps) (auto split: bind_splits)
    then show ?thesis using False by (simp add: SORT_THRESHOLD_def)
  next
    case True
    from "1.prems" True obtain a1 mid a2 t1 t2 where
      part: "partition a mn mx = Some (a1, mid)" and
      q1: "quicksort_trace a1 mn (mid - 1) = Some (a2, t1)" and
      q2: "quicksort_trace a2 (mid + 1) mx = Some (b, t2)" and
      tr: "tr = Partition_call mn mx # t1 @ t2"
      by (subst (asm) quicksort_trace.simps) (auto split: bind_splits)
    note ih1 = "1.IH"(1) [OF True part refl q1]
    note ih2 = "1.IH"(2) [OF True part refl q1 refl q2]
    show ?thesis unfolding tr using ih1 ih2 True by (auto simp: SORT_THRESHOLD_def)
  qed
qed

lemma quicksort_trace_returns:
  assumes "0 \<le> mn" and "mn \<le> mx + 1" and "mx < int (length a)" and "mx \<le> 1073741832"
  shows "\<exists>b tr. quicksort_trace a mn mx = Some (b, tr)"
proof -
  from quicksort_post [OF assms] obtain b where "quicksort a mn mx = Some b" by blast
  then have "map_option fst (quicksort_trace a mn mx) = Some b"
    by (simp add: quicksort_trace_fst)
  then show ?thesis by auto
qed

text \<open>
  Claim C8, as the code has it. The threshold 16 is compared with \<open>max - min\<close>, one less
  than the number of cells. Whenever the sort of a range returns: a range of more than
  17 cells is handled by \<^verbatim>\<open>partition\<close>, which moves the middle cell
  \<open>(min + max) div 2\<close> of the range to the index it returns, followed by the sorts of the
  two ranges on either side of that index; a range of at most 17 cells is handled by
  \<^verbatim>\<open>insertion_sort\<close> alone; the same holds for every range met during the sort; and the
  array is the one \<^verbatim>\<open>quicksort\<close> returns. (\<open>quicksort_trace_returns\<close>: it does return on
  every range within the array up to index \<open>2^30 + 8\<close>.)
\<close>

theorem quicksort_threshold:
  assumes "quicksort_trace addrs mn mx = Some (b, tr)"
  shows "(17 < mx - mn + 1 \<longrightarrow>
           (\<exists>a1 mid a2 t1 t2.
              partition addrs mn mx = Some (a1, mid) \<and>
              a1 ! nat mid = addrs ! nat ((mn + mx) div 2) \<and>
              quicksort_trace a1 mn (mid - 1) = Some (a2, t1) \<and>
              quicksort_trace a2 (mid + 1) mx = Some (b, t2) \<and>
              tr = Partition_call mn mx # t1 @ t2)) \<and>
         (mx - mn + 1 \<le> 17 \<longrightarrow>
            insertion_sort addrs mn mx = Some b \<and> tr = [Insertion_call mn mx]) \<and>
         (\<forall>c \<in> set tr. if by_partition c then 17 < range_size c else range_size c \<le> 17) \<and>
         quicksort addrs mn mx = Some b"
proof (intro conjI impI)
  assume big: "17 < mx - mn + 1"
  then have True: "SORT_THRESHOLD < mx - mn" by (simp add: SORT_THRESHOLD_def)
  from assms True obtain a1 mid a2 t1 t2 where
    part: "partition addrs mn mx = Some (a1, mid)" and
    q1: "quicksort_trace a1 mn (mid - 1) = Some (a2, t1)" and
    q2: "quicksort_trace a2 (mid + 1) mx = Some (b, t2)" and
    tr: "tr = Partition_call mn mx # t1 @ t2"
    by (subst (asm) quicksort_trace.simps) (auto split: bind_splits)
  have "mn < mx" using big by simp
  from partition_pivot [OF part this] have "a1 ! nat mid = addrs ! nat ((mn + mx) div 2)" by simp
  then show "\<exists>a1 mid a2 t1 t2.
              partition addrs mn mx = Some (a1, mid) \<and>
              a1 ! nat mid = addrs ! nat ((mn + mx) div 2) \<and>
              quicksort_trace a1 mn (mid - 1) = Some (a2, t1) \<and>
              quicksort_trace a2 (mid + 1) mx = Some (b, t2) \<and>
              tr = Partition_call mn mx # t1 @ t2"
    using part q1 q2 tr by blast
next
  assume "mx - mn + 1 \<le> 17"
  then have False: "\<not> SORT_THRESHOLD < mx - mn" by (simp add: SORT_THRESHOLD_def)
  from assms False show "insertion_sort addrs mn mx = Some b"
    by (subst (asm) quicksort_trace.simps) (auto split: bind_splits)
  from assms False show "tr = [Insertion_call mn mx]"
    by (subst (asm) quicksort_trace.simps) (auto split: bind_splits)
next
  show "\<forall>c \<in> set tr. if by_partition c then 17 < range_size c else range_size c \<le> 17"
    by (rule quicksort_trace_sizes [OF assms])
next
  show "quicksort addrs mn mx = Some b"
    using quicksort_trace_fst [of addrs mn mx] assms by simp
qed

text \<open>The equations that evaluate a sort of a concrete array.\<close>

lemmas sort_eval =
  quicksort_trace.simps quicksort.simps partition_def partition_loop.simps
  insertion_sort_def insertion_outer.simps insertion_inner.simps swap_def rd_def wr_def
  c_int_def INT_MAX_def INT_MIN_def SORT_THRESHOLD_def

text \<open>Claim C8 as stated fails on a range of 17 cells, which is more than 16 and goes
  to \<^verbatim>\<open>insertion_sort\<close>.\<close>

theorem quicksort_threshold_counterexample:
  "range_size (Insertion_call 0 16) = 17 \<and>
   quicksort_trace [1, 2, 3, 4, 5, 6, 7, 8, 9, 10, 11, 12, 13, 14, 15, 16, 17] 0 16 =
     Some ([1, 2, 3, 4, 5, 6, 7, 8, 9, 10, 11, 12, 13, 14, 15, 16, 17], [Insertion_call 0 16])"
  by (simp add: sort_eval)

text \<open>A range of 18 cells is partitioned at its middle cell.\<close>

theorem quicksort_threshold_witness:
  "quicksort_trace [1, 2, 3, 4, 5, 6, 7, 8, 9, 10, 11, 12, 13, 14, 15, 16, 17, 18] 0 17 =
     Some ([1, 2, 3, 4, 5, 6, 7, 8, 9, 10, 11, 12, 13, 14, 15, 16, 17, 18],
           [Partition_call 0 17, Insertion_call 0 7, Insertion_call 9 17]) \<and>
   quicksort [1, 2, 3, 4, 5, 6, 7, 8, 9, 10, 11, 12, 13, 14, 15, 16, 17, 18] 0 17 =
     Some [1, 2, 3, 4, 5, 6, 7, 8, 9, 10, 11, 12, 13, 14, 15, 16, 17, 18]"
proof -
  have e: "quicksort_trace [1, 2, 3, 4, 5, 6, 7, 8, 9, 10, 11, 12, 13, 14, 15, 16, 17, 18] 0 17 =
     Some ([1, 2, 3, 4, 5, 6, 7, 8, 9, 10, 11, 12, 13, 14, 15, 16, 17, 18],
           [Partition_call 0 17, Insertion_call 0 7, Insertion_call 9 17])"
    by (simp add: sort_eval)
  from quicksort_threshold [OF e] e show ?thesis by simp
qed

section \<open>Agreement of the two registries\<close>

lemma contains_node_correct:
  assumes "sorted_wrt (<) (keys_inorder t)"
  shows "contains_node t k = (if k \<in> set (keys_inorder t) then 1 else 0)"
  using assms
proof (induction t)
  case Null
  show ?case by simp
next
  case (Node nk nh nm l r)
  have sl: "sorted_wrt (<) (keys_inorder l)" and sr: "sorted_wrt (<) (keys_inorder r)"
    and ll: "\<forall>x \<in> set (keys_inorder l). x < nk" and rr: "\<forall>x \<in> set (keys_inorder r). nk < x"
    using Node.prems by (auto simp: sorted_wrt_append)
  consider (eq) "k = nk" | (lt) "k < nk" | (gt) "nk < k" by (rule linorder_cases) auto
  then show ?case
  proof cases
    case eq
    then show ?thesis by simp
  next
    case lt
    then have "k \<notin> set (keys_inorder r)" using rr by auto
    then show ?thesis using lt Node.IH(1) [OF sl] by auto
  next
    case gt
    then have "k \<notin> set (keys_inorder l)" using ll by auto
    then show ?thesis using gt Node.IH(2) [OF sr] by auto
  qed
qed

lemma build_loop_inserts:
  assumes "0 \<le> i" and "n \<le> int (length keys)"
  shows "build_loop tree keys n i =
           map_option fst (avl_inserts tree (drop (nat i) (take (nat n) keys)))"
  using assms
proof (induction tree keys n i rule: build_loop.induct)
  case (1 tree keys n i)
  note p = "1.prems"
  show ?case
  proof (cases "i < n")
    case False
    then have "drop (nat i) (take (nat n) keys) = []" by simp
    then show ?thesis using False by (subst build_loop.simps) simp
  next
    case True
    have rdk: "rd keys i = Some (keys ! nat i)" using True p by simp
    have "nat i < length (take (nat n) keys)" using True p by simp
    then have "drop (nat i) (take (nat n) keys) =
        take (nat n) keys ! nat i # drop (Suc (nat i)) (take (nat n) keys)"
      by (rule Cons_nth_drop_Suc [symmetric])
    moreover have "take (nat n) keys ! nat i = keys ! nat i" using True p by simp
    moreover have "Suc (nat i) = nat (i + 1)" using p(1) by simp
    ultimately have d: "drop (nat i) (take (nat n) keys) =
        keys ! nat i # drop (nat (i + 1)) (take (nat n) keys)" by simp
    show ?thesis
    proof (cases "avl_insert tree (keys ! nat i)")
      case None
      then show ?thesis using True rdk unfolding d by (subst build_loop.simps) simp
    next
      case (Some x)
      obtain tree1 ins where x: "x = (tree1, ins)" by (cases x)
      have ai: "avl_insert tree (keys ! nat i) = Some (tree1, ins)" using Some x by simp
      have "0 \<le> i + 1" using p(1) by simp
      from "1.IH" [OF True rdk ai refl this p(2)]
      have ih: "build_loop tree1 keys n (i + 1) =
          map_option fst (avl_inserts tree1 (drop (nat (i + 1)) (take (nat n) keys)))" .
      show ?thesis using True rdk ai ih unfolding d
        by (subst build_loop.simps)
           (cases "avl_inserts tree1 (drop (nat (i + 1)) (take (nat n) keys))"; auto)
    qed
  qed
qed

lemma avl_build_from_array_contains:
  "\<exists>tree. avl_build_from_array keys (int (length keys)) = Some tree \<and>
      avl_inv (root tree) \<and>
      avl_contains tree k = (if k \<in> set keys then 1 else 0)"
proof -
  have "avl_s (root avl_create)" "sorted_wrt (<) (keys_inorder (root avl_create))"
    by (simp_all add: avl_create_def)
  from avl_inserts_post [OF this, of keys] obtain tree rs where
    i: "avl_inserts avl_create keys = Some (tree, rs)" and a: "avl_s (root tree)"
    and s: "sorted_wrt (<) (keys_inorder (root tree))"
    and e: "set (keys_inorder (root tree)) = set (keys_inorder (root avl_create)) \<union> set keys"
    by blast
  have "avl_build_from_array keys (int (length keys)) = Some tree"
    using build_loop_inserts [of 0 "int (length keys)" keys avl_create] i
    by (simp add: avl_build_from_array_def)
  moreover have "avl_contains tree k = (if k \<in> set keys then 1 else 0)"
    using contains_node_correct [OF s, of k] e by (simp add: avl_contains_def avl_create_def)
  ultimately show ?thesis using a by (auto intro: avl_s_avl_inv)
qed

text \<open>Over any strictly increasing arrangement of the keys, of any \<^verbatim>\<open>int\<close> length, the
  binary search returns a non-negative index exactly when \<^verbatim>\<open>avl_contains\<close> returns 1 on
  the tree built from the keys.\<close>

lemma membership_agrees_sorted_copy:
  assumes "sorted_wrt (<) b" and "set b = set keys" and "int (length b) \<le> INT_MAX"
    and "length b \<le> length flags"
  shows "\<exists>idx flags1 tree.
      binary_search_mark b (int (length b)) k flags = Some (idx, flags1) \<and>
      avl_build_from_array keys (int (length keys)) = Some tree \<and>
      (0 \<le> idx \<longleftrightarrow> avl_contains tree k = 1)"
proof -
  let ?n = "int (length b)"
  have ss: "sorted_wrt (<) (take (nat ?n) b)" using assms(1) by simp
  have c: "c_int (?n - 1) = Some (?n - 1)"
    using assms(3) by (simp add: c_int_def INT_MIN_def INT_MAX_def)
  have lf: "?n \<le> int (length b)" "?n \<le> int (length flags)" using assms(4) by simp_all
  have inv: "\<forall>i < nat ?n. b ! i = k \<longrightarrow> 0 \<le> int i \<and> int i \<le> ?n - 1" by auto
  from bsearch_loop_inv [of 0 "?n - 1" ?n b flags k] lf ss inv
  have bs: "(\<forall>i < nat ?n. b ! i = k \<longrightarrow>
            bsearch_loop b k flags 0 (?n - 1) =
              Some (int i, if flags ! i = 0 then flags[i := 1] else flags)) \<and>
         ((\<forall>i < nat ?n. b ! i \<noteq> k) \<longrightarrow>
            bsearch_loop b k flags 0 (?n - 1) = Some (- 1, flags))"
    by simp
  have bm: "binary_search_mark b ?n k flags = bsearch_loop b k flags 0 (?n - 1)"
    using c by (simp add: binary_search_mark_def)
  from avl_build_from_array_contains [of keys k] obtain tree where
    bt: "avl_build_from_array keys (int (length keys)) = Some tree"
    and ct: "avl_contains tree k = (if k \<in> set keys then 1 else 0)" by blast
  show ?thesis
  proof (cases "k \<in> set keys")
    case True
    then have "k \<in> set b" using assms(2) by simp
    then obtain i where i: "i < length b" "b ! i = k" by (auto simp: in_set_conv_nth)
    then have "i < nat ?n" by simp
    then have "binary_search_mark b ?n k flags =
        Some (int i, if flags ! i = 0 then flags[i := 1] else flags)"
      using bs i(2) bm by simp
    moreover have "avl_contains tree k = 1" using ct True by simp
    ultimately show ?thesis using bt by auto
  next
    case False
    then have "\<forall>i < nat ?n. b ! i \<noteq> k" using assms(2) by (metis nth_mem nat_int)
    then have "binary_search_mark b ?n k flags = Some (- 1, flags)" using bs bm by simp
    moreover have "avl_contains tree k \<noteq> 1" using ct False by simp
    ultimately show ?thesis using bt by auto
  qed
qed

text \<open>For up to \<open>2^30 + 9\<close> pairwise distinct keys, \<^verbatim>\<open>forkscan_util_sort\<close> produces such an
  arrangement, and the two registries agree on membership.\<close>

lemma membership_agrees_bounded:
  assumes "distinct keys" and "int (length keys) \<le> 1073741833"
    and "length keys \<le> length flags"
  shows "\<exists>sorted_keys idx flags1 tree.
      forkscan_util_sort keys (int (length keys)) = Some sorted_keys \<and>
      binary_search_mark sorted_keys (int (length keys)) k flags = Some (idx, flags1) \<and>
      avl_build_from_array keys (int (length keys)) = Some tree \<and>
      (0 \<le> idx \<longleftrightarrow> avl_contains tree k = 1)"
proof -
  let ?n = "int (length keys)"
  have n0: "0 \<le> ?n" "?n \<le> int (length keys)" by simp_all
  from forkscan_util_sort_bounded [OF n0 assms(2)] obtain b where
    so: "forkscan_util_sort keys ?n = Some b" and lb: "length b = length keys"
    and ms: "mset (take (nat ?n) b) = mset (take (nat ?n) keys)"
    and sb: "sorted (take (nat ?n) b)" by blast
  have tb: "take (nat ?n) b = b" "take (nat ?n) keys = keys" using lb by simp_all
  have msb: "mset b = mset keys" using ms tb by simp
  then have db: "distinct b" using assms(1) by (metis mset_eq_imp_distinct_iff)
  have setb: "set b = set keys" using msb by (metis set_mset_mset)
  have ss: "sorted_wrt (<) b" using sb db tb by (simp add: strict_sorted_iff)
  have im: "int (length b) \<le> INT_MAX" using assms(2) lb by (simp add: INT_MAX_def)
  have lf: "length b \<le> length flags" using assms(3) lb by simp
  from membership_agrees_sorted_copy [OF ss setb im lf, of k] so lb show ?thesis by auto
qed

text \<open>
  Claim C9 says that the two registries agree on membership for every finite sequence
  of pairwise distinct keys. For the \<open>2^31 - 1\<close> distinct keys of \<open>overflow_keys\<close> the tree
  is built and contains key 1, but the sorted copy does not exist: the sort runs into the
  signed overflow of \<^verbatim>\<open>partition\<close>.
\<close>

theorem membership_sort_overflow:
  "distinct overflow_keys \<and>
   forkscan_util_sort overflow_keys (int (length overflow_keys)) = None \<and>
   (\<exists>tree. avl_build_from_array overflow_keys (int (length overflow_keys)) = Some tree \<and>
      avl_contains tree 1 = 1)"
proof (intro conjI)
  have len: "length overflow_keys = 2147483647"
    unfolding overflow_keys_def by (simp only: length_map length_upt)
  show "distinct overflow_keys" by (rule overflow_keys_distinct)
  show "forkscan_util_sort overflow_keys (int (length overflow_keys)) = None"
    using overflow_keys_sort len by simp
  have "overflow_keys ! 1073741823 = 1" by (simp add: overflow_keys_nth)
  moreover have "(1073741823 :: nat) < length overflow_keys" using len by simp
  ultimately have "1 \<in> set overflow_keys" by (metis nth_mem)
  then show "\<exists>tree. avl_build_from_array overflow_keys (int (length overflow_keys)) = Some tree \<and>
      avl_contains tree 1 = 1"
    using avl_build_from_array_contains [of overflow_keys 1] by auto
qed

section \<open>Two concurrent removals of one key\<close>

lemma winner_step:
  assumes "winner_at p s t" and "slot s = None" and "remove_node_step s t = (s1, t')"
  shows "winner_at p s1 t' \<and> slot s1 = None"
  using assms
  by (cases "pc t") (auto simp: winner_at_def remove_node_step_def Let_def)

lemma loser_step:
  assumes "loser_at t" and "slot s = None" and "remove_node_step s t = (s1, t')"
  shows "loser_at t' \<and> s1 = s"
  using assms
  by (cases "pc t") (auto simp: loser_at_def remove_node_step_def)

lemma first_step:
  assumes "remove_node_step (added p) remove_node_call = (s1, t')"
  shows "slot s1 = None \<and> winner_at p s1 t'"
  using assms
  by (auto simp: winner_at_def remove_node_step_def added_def remove_node_call_def)

lemma loser_call: "loser_at remove_node_call"
  by (simp add: loser_at_def remove_node_call_def)

lemma race_inv_cases:
  assumes "race_inv p (s, t0, t1)"
  obtains (init) "s = added p" "t0 = remove_node_call" "t1 = remove_node_call"
    | (w0) "slot s = None" "winner_at p s t0" "loser_at t1"
    | (w1) "slot s = None" "winner_at p s t1" "loser_at t0"
  using assms by (auto simp: race_inv_def)

lemma race_inv_step0:
  assumes "race_inv p (s, t0, t1)" and "remove_node_step s t0 = (s1, t)"
  shows "race_inv p (s1, t, t1)"
  using assms(1)
proof (cases rule: race_inv_cases)
  case init
  then show ?thesis using first_step [of p s1 t] assms(2) loser_call
    by (simp add: race_inv_def)
next
  case w0
  then show ?thesis using winner_step [OF w0(2,1) assms(2)] by (simp add: race_inv_def)
next
  case w1
  then show ?thesis using loser_step [OF w1(3,1) assms(2)] by (simp add: race_inv_def)
qed

lemma race_inv_step1:
  assumes "race_inv p (s, t0, t1)" and "remove_node_step s t1 = (s1, t)"
  shows "race_inv p (s1, t0, t)"
  using assms(1)
proof (cases rule: race_inv_cases)
  case init
  then show ?thesis using first_step [of p s1 t] assms(2) loser_call
    by (simp add: race_inv_def)
next
  case w0
  then show ?thesis using loser_step [OF w0(3,1) assms(2)] by (simp add: race_inv_def)
next
  case w1
  then show ?thesis using winner_step [OF w1(2,1) assms(2)] by (simp add: race_inv_def)
qed

lemma race_inv_race: "race_inv p c \<Longrightarrow> race_inv p (race sched c)"
proof (induction sched arbitrary: c)
  case Nil
  then show ?case by simp
next
  case (Cons second sched)
  obtain s t0 t1 where c: "c = (s, t0, t1)" by (cases c)
  have i: "race_inv p (s, t0, t1)" using Cons.prems c by simp
  show ?case
  proof (cases second)
    case True
    obtain s1 t where st: "remove_node_step s t1 = (s1, t)" by (cases "remove_node_step s t1")
    have "race_inv p (s1, t0, t)" using i st by (rule race_inv_step1)
    then have "race_inv p (race sched (s1, t0, t))" by (rule Cons.IH)
    then show ?thesis using c True st by simp
  next
    case False
    obtain s1 t where st: "remove_node_step s t0 = (s1, t)" by (cases "remove_node_step s t0")
    have "race_inv p (s1, t, t1)" using i st by (rule race_inv_step0)
    then have "race_inv p (race sched (s1, t, t1))" by (rule Cons.IH)
    then show ?thesis using c False st by simp
  qed
qed

lemma steps_left_step:
  "remove_node_step s t = (s1, t') \<Longrightarrow> steps_left (pc t') \<le> steps_left (pc t) - 1"
  by (cases "pc t")
     (auto simp: remove_node_step_def steps_left_def Let_def split: option.splits if_splits)

lemma race_progress:
  assumes "race sched (s, t0, t1) = (s', t0', t1')"
  shows "steps_left (pc t0') \<le> steps_left (pc t0) - length (filter Not sched) \<and>
         steps_left (pc t1') \<le> steps_left (pc t1) - length (filter (\<lambda>b. b) sched)"
  using assms
proof (induction sched arbitrary: s t0 t1)
  case Nil
  then show ?case by simp
next
  case (Cons second sched)
  show ?case
  proof (cases second)
    case True
    obtain s1 t where st: "remove_node_step s t1 = (s1, t)" by (cases "remove_node_step s t1")
    then have r: "race sched (s1, t0, t) = (s', t0', t1')" using Cons.prems True by simp
    from Cons.IH [OF r] steps_left_step [OF st] True show ?thesis by (simp, linarith)
  next
    case False
    obtain s1 t where st: "remove_node_step s t0 = (s1, t)" by (cases "remove_node_step s t0")
    then have r: "race sched (s1, t, t1) = (s', t0', t1')" using Cons.prems False by simp
    from Cons.IH [OF r] steps_left_step [OF st] False show ?thesis by (simp, linarith)
  qed
qed

lemma steps_left_0: "steps_left c = 0 \<Longrightarrow> \<exists>b. c = Returned b"
  by (cases c) (simp_all add: steps_left_def)

text \<open>
  Claim C10, as the code has it. Two threads call \<^verbatim>\<open>remove_node(k)\<close> on a key that was
  added. Under every schedule that gives each thread its three steps, both calls return
  and exactly one \<^verbatim>\<open>forkscan_retire\<close> call is made, for the removed node: one thread reads
  the flag as 0, hands the node off and returns true; the other gets \<^verbatim>\<open>NULL\<close> from the
  exchange on the slot and returns false, without an access to the flag and without a
  hand-off.
\<close>

theorem remove_node_race:
  assumes "race sched (added p, remove_node_call, remove_node_call) = (s, t0, t1)"
    and "3 \<le> length (filter Not sched)" and "3 \<le> length (filter (\<lambda>b. b) sched)"
  shows "slot s = None \<and> hand_offs t0 @ hand_offs t1 = [p] \<and>
         ((pc t0 = Returned True \<and> wasCollected t0 = Some 0 \<and> hand_offs t0 = [p] \<and>
           pc t1 = Returned False \<and> wasCollected t1 = None \<and> hand_offs t1 = []) \<or>
          (pc t1 = Returned True \<and> wasCollected t1 = Some 0 \<and> hand_offs t1 = [p] \<and>
           pc t0 = Returned False \<and> wasCollected t0 = None \<and> hand_offs t0 = []))"
proof -
  have "race_inv p (added p, remove_node_call, remove_node_call)" by (simp add: race_inv_def)
  then have "race_inv p (race sched (added p, remove_node_call, remove_node_call))"
    by (rule race_inv_race)
  then have inv: "race_inv p (s, t0, t1)" using assms(1) by simp
  from race_progress [OF assms(1)] assms(2,3)
  have "steps_left (pc t0) = 0" "steps_left (pc t1) = 0"
    by (simp_all add: remove_node_call_def steps_left_def)
  then obtain b0 b1 where r: "pc t0 = Returned b0" "pc t1 = Returned b1"
    by (blast dest: steps_left_0)
  from inv show ?thesis
  proof (cases rule: race_inv_cases)
    case init
    then show ?thesis using r by (simp add: remove_node_call_def)
  next
    case w0
    then show ?thesis using r by (auto simp: winner_at_def loser_at_def)
  next
    case w1
    then show ?thesis using r by (auto simp: winner_at_def loser_at_def)
  qed
qed

text \<open>The equations that evaluate a schedule.\<close>

lemmas race_eval = remove_node_step_def remove_node_call_def added_def Let_def

text \<open>Claim C10 as stated has the other thread observe the flag already set. Here the
  second thread runs between the two exchanges of the first: it returns false at the
  \<^verbatim>\<open>NULL\<close> test and has no value of \<^verbatim>\<open>wasCollected\<close>, since it never reaches line 78.\<close>

theorem remove_node_race_counterexample:
  "pc (snd (snd (race [False, True, False, False]
           (added 7, remove_node_call, remove_node_call)))) = Returned False \<and>
   wasCollected (snd (snd (race [False, True, False, False]
           (added 7, remove_node_call, remove_node_call)))) = None \<and>
   hand_offs (fst (snd (race [False, True, False, False]
           (added 7, remove_node_call, remove_node_call)))) = [7]"
  by (simp add: race_eval)

text \<open>The two threads in alternation, the second first.\<close>

theorem remove_node_race_witness:
  "hand_offs (fst (snd (race [True, False, True, False, True, False]
           (added 7, remove_node_call, remove_node_call)))) = [] \<and>
   hand_offs (snd (snd (race [True, False, True, False, True, False]
           (added 7, remove_node_call, remove_node_call)))) = [7] \<and>
   wasCollected (fst (snd (race [True, False, True, False, True, False]
           (added 7, remove_node_call, remove_node_call)))) = None"
proof -
  obtain s t0 t1 where
    e: "race [True, False, True, False, True, False]
          (added 7, remove_node_call, remove_node_call) = (s, t0, t1)"
    by (cases "race [True, False, True, False, True, False]
          (added 7, remove_node_call, remove_node_call)")
  have n: "3 \<le> length (filter Not [True, False, True, False, True, False])"
    "3 \<le> length (filter (\<lambda>b. b) [True, False, True, False, True, False])" by simp_all
  have w: "pc t1 = Returned True"
    using e by (simp add: race_eval) (auto)
  from remove_node_race [OF e n] w e show ?thesis by auto
qed

end
